theory Spec2Isabelle
  imports Main "HOL-Library.Word" "HOL-Library.Monad_Syntax"
begin

unbundle bit_operations_syntax

section \<open>Machine types\<close>

text \<open>
  The sources are C for an LP64 host (the branch \<open>LONG_MAX == LLONG_MAX\<close> of
  \<open>sdsReqType\<close>): \<open>size_t\<close>, \<open>unsigned long\<close> and pointers are 64-bit words,
  \<open>unsigned int\<close> is a 32-bit word, \<open>unsigned char\<close> an 8-bit word. Word arithmetic
  wraps around as the C unsigned types do.
\<close>

type_synonym byte = "8 word"
type_synonym uint = "32 word"
type_synonym size_t = "64 word"
type_synonym ulong = "64 word"
type_synonym ptr = "64 word"

section \<open>SDS: dynamic strings (sds.h, sds.c)\<close>

subsection \<open>Header variants\<close>

definition SDS_MAX_PREALLOC :: size_t where
  "SDS_MAX_PREALLOC = 1024 * 1024"

definition SDS_TYPE_5 :: byte where "SDS_TYPE_5 = 0"
definition SDS_TYPE_8 :: byte where "SDS_TYPE_8 = 1"
definition SDS_TYPE_16 :: byte where "SDS_TYPE_16 = 2"
definition SDS_TYPE_32 :: byte where "SDS_TYPE_32 = 3"
definition SDS_TYPE_64 :: byte where "SDS_TYPE_64 = 4"
definition SDS_TYPE_MASK :: byte where "SDS_TYPE_MASK = 7"
definition SDS_TYPE_BITS :: nat where "SDS_TYPE_BITS = 3"

lemmas SDS_TYPE_defs =
  SDS_TYPE_5_def SDS_TYPE_8_def SDS_TYPE_16_def SDS_TYPE_32_def SDS_TYPE_64_def
  SDS_TYPE_MASK_def SDS_TYPE_BITS_def

text \<open>
  An sds handle points at \<open>buf\<close>; the header lies before it. The model keeps the
  flags byte \<open>s[-1]\<close>, the header's \<open>len\<close> and \<open>alloc\<close> fields (zero-extended to
  64 bits; a store truncates to the width of the variant, see \<open>sdsField\<close>), and the
  bytes of the allocation from \<open>s[0]\<close> on, the terminating NUL included.
  For \<open>SDS_TYPE_5\<close> the header has no \<open>len\<close> and \<open>alloc\<close> fields: the length
  is in the upper five bits of the flags byte.
\<close>

record sds =
  flags :: byte
  len :: size_t
  alloc :: size_t
  buf :: "byte list"

text \<open>The value a \<open>len\<close> or \<open>alloc\<close> field of the given variant holds after storing \<open>v\<close>:
  \<open>uint8_t\<close>, \<open>uint16_t\<close>, \<open>uint32_t\<close> or \<open>uint64_t\<close>.\<close>

definition sdsField :: "byte \<Rightarrow> size_t \<Rightarrow> size_t" where
  "sdsField type v =
     (if type = SDS_TYPE_8 then ucast (ucast v :: 8 word)
      else if type = SDS_TYPE_16 then ucast (ucast v :: 16 word)
      else if type = SDS_TYPE_32 then ucast (ucast v :: 32 word)
      else v)"

text \<open>\<open>SDS_TYPE_5_LEN(f) = f >> SDS_TYPE_BITS\<close>\<close>

definition SDS_TYPE_5_LEN :: "byte \<Rightarrow> size_t" where
  "SDS_TYPE_5_LEN f = ucast (drop_bit SDS_TYPE_BITS f)"

definition sdslen :: "sds \<Rightarrow> size_t" where
  "sdslen s =
     (let t = flags s AND SDS_TYPE_MASK in
      if t = SDS_TYPE_5 then SDS_TYPE_5_LEN (flags s)
      else if t = SDS_TYPE_8 \<or> t = SDS_TYPE_16 \<or> t = SDS_TYPE_32 \<or> t = SDS_TYPE_64
        then len s
      else 0)"

text \<open>
  \<open>sdsavail\<close> returns \<open>sh->alloc - sh->len\<close> as a \<open>size_t\<close>. The operands of
  types 8 and 16 are promoted to \<open>int\<close>: the difference is taken there and converted, so
  that it is \<open>2^64 - (len - alloc)\<close> when \<open>alloc < len\<close>, which is the subtraction of
  the 64-bit words. The operands of type 32 are \<open>unsigned int\<close>: the difference wraps at
  32 bits and is zero-extended. Those of type 64 are subtracted in 64 bits.
\<close>

definition sdsavail :: "sds \<Rightarrow> size_t" where
  "sdsavail s =
     (let t = flags s AND SDS_TYPE_MASK in
      if t = SDS_TYPE_5 then 0
      else if t = SDS_TYPE_8 \<or> t = SDS_TYPE_16 then alloc s - len s
      else if t = SDS_TYPE_32
        then ucast ((ucast (alloc s) :: 32 word) - (ucast (len s) :: 32 word))
      else if t = SDS_TYPE_64 then alloc s - len s
      else 0)"

definition sdsalloc :: "sds \<Rightarrow> size_t" where
  "sdsalloc s =
     (let t = flags s AND SDS_TYPE_MASK in
      if t = SDS_TYPE_5 then SDS_TYPE_5_LEN (flags s)
      else if t = SDS_TYPE_8 \<or> t = SDS_TYPE_16 \<or> t = SDS_TYPE_32 \<or> t = SDS_TYPE_64
        then alloc s
      else 0)"

definition sdssetlen :: "sds \<Rightarrow> size_t \<Rightarrow> sds" where
  "sdssetlen s newlen =
     (let t = flags s AND SDS_TYPE_MASK in
      if t = SDS_TYPE_5
        then s\<lparr>flags := SDS_TYPE_5 OR ucast (push_bit SDS_TYPE_BITS newlen)\<rparr>
      else if t = SDS_TYPE_8 \<or> t = SDS_TYPE_16 \<or> t = SDS_TYPE_32 \<or> t = SDS_TYPE_64
        then s\<lparr>len := sdsField t newlen\<rparr>
      else s)"

definition sdssetalloc :: "sds \<Rightarrow> size_t \<Rightarrow> sds" where
  "sdssetalloc s newlen =
     (let t = flags s AND SDS_TYPE_MASK in
      if t = SDS_TYPE_5 then s
      else if t = SDS_TYPE_8 \<or> t = SDS_TYPE_16 \<or> t = SDS_TYPE_32 \<or> t = SDS_TYPE_64
        then s\<lparr>alloc := sdsField t newlen\<rparr>
      else s)"

text \<open>\<open>sizeof\<close> of the packed header structs.\<close>

definition sdsHdrSize :: "byte \<Rightarrow> size_t" where
  "sdsHdrSize type =
     (let t = type AND SDS_TYPE_MASK in
      if t = SDS_TYPE_5 then 1
      else if t = SDS_TYPE_8 then 3
      else if t = SDS_TYPE_16 then 5
      else if t = SDS_TYPE_32 then 9
      else if t = SDS_TYPE_64 then 17
      else 0)"

text \<open>The thresholds are \<open>1<<5\<close>, \<open>1<<8\<close>, \<open>1<<16\<close> and \<open>1ll<<32\<close>.\<close>

definition sdsReqType :: "size_t \<Rightarrow> byte" where
  "sdsReqType string_size =
     (if string_size < 32 then SDS_TYPE_5
      else if string_size < 256 then SDS_TYPE_8
      else if string_size < 65536 then SDS_TYPE_16
      else if string_size < 4294967296 then SDS_TYPE_32
      else SDS_TYPE_64)"

subsection \<open>Creation\<close>

text \<open>
  The \<open>init\<close> argument of \<open>sdsnewlen\<close>: the \<open>SDS_NOINIT\<close> marker, \<open>NULL\<close>, or a
  pointer to bytes (the bytes readable there).
\<close>

datatype sdsinit = SDS_NOINIT | NULL_init | Init "byte list"

text \<open>
  What a call can end in besides a handle: the \<open>NULL\<close> return, or a step the C standard
  leaves undefined (a read or write outside an allocation, \<open>memset\<close> on \<open>NULL\<close>).
\<close>

datatype sds_error = NULL_returned | Undefined

text \<open>
  \<open>s_malloc\<close> and \<open>s_realloc\<close> are parameters of the model: \<open>ok\<close> says whether the
  allocation succeeds, \<open>fresh\<close> is the content of the bytes it hands out uninitialised.
  The request \<open>hdrlen+initlen+1\<close> is computed in \<open>size_t\<close>; the bytes of the block that
  follow the header are \<open>unat (hdrlen+initlen+1) - unat hdrlen\<close>.
\<close>

definition sdsnewlen :: "bool \<Rightarrow> byte \<Rightarrow> sdsinit \<Rightarrow> size_t \<Rightarrow> sds_error + sds" where
  "sdsnewlen ok fresh init initlen =
     (let type = sdsReqType initlen;
          type = (if type = SDS_TYPE_5 \<and> initlen = 0 then SDS_TYPE_8 else type);
          hdrlen = sdsHdrSize type;
          room = unat (hdrlen + initlen + 1) - unat hdrlen
      in if \<not> ok then (if init = NULL_init then Inl Undefined else Inl NULL_returned)
         else if room \<le> unat initlen then Inl Undefined
         else
           let hdr = (if type = SDS_TYPE_5
                      then \<lparr>flags = type OR ucast (push_bit SDS_TYPE_BITS initlen),
                            len = 0, alloc = 0, buf = []\<rparr>
                      else \<lparr>flags = type, len = sdsField type initlen,
                            alloc = sdsField type initlen, buf = []\<rparr>)
           in (case init of
                 SDS_NOINIT \<Rightarrow>
                   Inr (hdr\<lparr>buf := replicate (unat initlen) fresh @ [0]
                                  @ replicate (room - unat initlen - 1) fresh\<rparr>)
               | NULL_init \<Rightarrow>
                   Inr (hdr\<lparr>buf := replicate room 0\<rparr>)
               | Init bytes \<Rightarrow>
                   if length bytes < unat initlen then Inl Undefined
                   else Inr (hdr\<lparr>buf := take (unat initlen) bytes @ [0]
                                    @ replicate (room - unat initlen - 1) fresh\<rparr>)))"

subsection \<open>Growth\<close>

text \<open>
  \<open>sdsMakeRoomFor\<close>. When the variant is kept the block is resized by \<open>s_realloc\<close>
  and only the \<open>alloc\<close> field is rewritten; otherwise a new block is taken from
  \<open>s_malloc\<close>, \<open>len+1\<close> bytes are copied, the flags byte and both fields of the new
  header are written (the \<open>0\<close>s of the fresh record are overwritten by \<open>sdssetlen\<close>
  and \<open>sdssetalloc\<close>, the variant never being \<open>SDS_TYPE_5\<close> there).
  A block smaller than its header, or than the bytes copied into it, is a write outside the
  allocation.
\<close>

definition sdsMakeRoomFor :: "bool \<Rightarrow> byte \<Rightarrow> sds \<Rightarrow> size_t \<Rightarrow> sds_error + sds" where
  "sdsMakeRoomFor ok fresh s addlen =
     (let avail = sdsavail s;
          oldtype = flags s AND SDS_TYPE_MASK
      in if avail \<ge> addlen then Inr s
         else
           let len = sdslen s;
               newlen = len + addlen;
               newlen = (if newlen < SDS_MAX_PREALLOC then newlen * 2
                         else newlen + SDS_MAX_PREALLOC);
               type = sdsReqType newlen;
               type = (if type = SDS_TYPE_5 then SDS_TYPE_8 else type);
               hdrlen = sdsHdrSize type;
               room = unat (hdrlen + newlen + 1) - unat hdrlen
           in if oldtype = type then
                (if \<not> ok then Inl NULL_returned
                 else if unat (hdrlen + newlen + 1) < unat hdrlen then Inl Undefined
                 else Inr (sdssetalloc
                       (s\<lparr>buf := take room (buf s) @ replicate (room - length (buf s)) fresh\<rparr>)
                       newlen))
              else
                (if \<not> ok then Inl NULL_returned
                 else if unat (hdrlen + newlen + 1) < unat hdrlen
                         \<or> length (buf s) < unat (len + 1) \<or> room < unat (len + 1)
                   then Inl Undefined
                 else Inr (sdssetalloc
                       (sdssetlen
                          \<lparr>flags = type, len = 0, alloc = 0,
                           buf = take (unat (len + 1)) (buf s)
                                 @ replicate (room - unat (len + 1)) fresh\<rparr>
                          len)
                       newlen)))"

text \<open>The largest length the header of a variant can record: five bits of the flags
  byte, or the width of its \<open>len\<close> field.\<close>

definition sdsTypeMaxLen :: "byte \<Rightarrow> size_t" where
  "sdsTypeMaxLen type =
     (if type = SDS_TYPE_5 then 31
      else if type = SDS_TYPE_8 then 255
      else if type = SDS_TYPE_16 then 65535
      else if type = SDS_TYPE_32 then 4294967295
      else - 1)"

text \<open>
  A header as the library leaves it: the length is within the capacity, and the capacity
  is a number that the \<open>alloc\<close> field of its variant can hold (for an \<open>SDS_TYPE_5\<close>
  string both are the five bits of the flags byte).
\<close>

definition sds_header_ok :: "sds \<Rightarrow> bool" where
  "sds_header_ok s \<longleftrightarrow>
     sdslen s \<le> sdsalloc s \<and> sdsalloc s \<le> sdsTypeMaxLen (flags s AND SDS_TYPE_MASK)"

text \<open>
  The growth policy in the specification's words: with \<open>target = length + addlen\<close>, the
  new capacity is twice the target below \<open>SDS_MAX_PREALLOC\<close> (1 MiB) and the target plus
  1 MiB otherwise (in \<open>size_t\<close> arithmetic); the variant is the smallest one holding the
  new capacity, with type 8 in place of type 5.
\<close>

definition sdsGrowLen :: "sds \<Rightarrow> size_t \<Rightarrow> size_t" where
  "sdsGrowLen s addlen =
     (let target = sdslen s + addlen
      in if target < SDS_MAX_PREALLOC then target * 2 else target + SDS_MAX_PREALLOC)"

definition sdsGrowType :: "size_t \<Rightarrow> byte" where
  "sdsGrowType newlen = (if sdsReqType newlen = SDS_TYPE_5 then SDS_TYPE_8 else sdsReqType newlen)"

subsection \<open>Splitting\<close>

text \<open>
  \<open>sdssplitlen(s, len, sep, seplen, count)\<close>. The arguments \<open>len\<close> (\<open>ssize_t\<close>),
  \<open>seplen\<close> and \<open>*count\<close> (\<open>int\<close>) are integers; \<open>s\<close> and \<open>sep\<close> are the bytes
  readable at the two pointers. The allocator is the parameter \<open>okf\<close>: the allocation
  call number \<open>k\<close> of a run (\<open>s_malloc\<close>, \<open>s_realloc\<close> and the \<open>s_malloc\<close> inside
  \<open>sdsnewlen\<close>, counted from 0) succeeds when \<open>okf k\<close>. The result is the returned array
  (\<open>None\<close> for \<open>NULL\<close>) with the value of \<open>*count\<close> after the call; \<open>Inl Undefined\<close>
  stands for a read outside the arguments or a signed overflow of \<open>slots\<close>.

  The loop: \<open>j\<close>, \<open>start\<close> and \<open>slots\<close> are the variables of the source, \<open>elements\<close> is
  the length of \<open>tokens\<close>. The test \<open>(seplen == 1 && *(s+j) == sep[0]) || memcmp(s+j,sep,seplen) == 0\<close>
  compares \<open>seplen\<close> bytes. The loop is entered with \<open>seplen \<ge> 1\<close> only (the function
  returns before it otherwise), which is what makes \<open>j\<close> advance. The argument
  \<open>len\<close> is written \<open>slen\<close>, \<open>len\<close> being the header field.
\<close>

definition INT_MAX :: int where
  "INT_MAX = 2147483647"

function sdssplitlen_loop ::
  "(nat \<Rightarrow> bool) \<Rightarrow> byte \<Rightarrow> byte list \<Rightarrow> int \<Rightarrow> byte list \<Rightarrow> int
     \<Rightarrow> int \<Rightarrow> int \<Rightarrow> int \<Rightarrow> sds list \<Rightarrow> nat
     \<Rightarrow> sds_error + (sds list option \<times> int)" where
  "sdssplitlen_loop okf fresh s slen sep seplen j start slots tokens k =
     (if seplen < 1 then Inl Undefined
      else if j < slen - (seplen - 1) then
        (let elements = int (length tokens) in
         if slots < elements + 2 \<and> INT_MAX < slots * 2 then Inl Undefined
         else if slots < elements + 2 \<and> \<not> okf k then Inr (None, 0)
         else
           let slots' = (if slots < elements + 2 then slots * 2 else slots);
               k' = (if slots < elements + 2 then Suc k else k)
           in if j < 0 \<or> int (length s) < j + seplen \<or> int (length sep) < seplen
                then Inl Undefined
              else if take (nat seplen) (drop (nat j) s) = take (nat seplen) sep then
                (case sdsnewlen (okf k') fresh (Init (drop (nat start) s)) (of_int (j - start)) of
                   Inl NULL_returned \<Rightarrow> Inr (None, 0)
                 | Inl Undefined \<Rightarrow> Inl Undefined
                 | Inr tok \<Rightarrow>
                     sdssplitlen_loop okf fresh s slen sep seplen
                       (j + seplen - 1 + 1) (j + seplen) slots' (tokens @ [tok]) (Suc k'))
              else sdssplitlen_loop okf fresh s slen sep seplen (j + 1) start slots' tokens k')
      else
        (case sdsnewlen (okf k) fresh (Init (drop (nat start) s)) (of_int (slen - start)) of
           Inl NULL_returned \<Rightarrow> Inr (None, 0)
         | Inl Undefined \<Rightarrow> Inl Undefined
         | Inr tok \<Rightarrow> Inr (Some (tokens @ [tok]), int (length tokens) + 1)))"
  by pat_completeness auto
termination
  by (relation "measure (\<lambda>(okf, fresh, s, slen, sep, seplen, j, start, slots, tokens, k).
        nat (slen - (seplen - 1) - j))") auto

definition sdssplitlen ::
  "(nat \<Rightarrow> bool) \<Rightarrow> byte \<Rightarrow> byte list \<Rightarrow> int \<Rightarrow> byte list \<Rightarrow> int \<Rightarrow> int
     \<Rightarrow> sds_error + (sds list option \<times> int)" where
  "sdssplitlen okf fresh s slen sep seplen count =
     (if seplen < 1 \<or> slen < 0 then Inr (None, count)
      else if \<not> okf 0 then Inr (None, count)
      else if slen = 0 then Inr (Some [], 0)
      else sdssplitlen_loop okf fresh s slen sep seplen 0 0 5 [] 1)"

section \<open>DICT: hash tables (dict.h, dict.c)\<close>

subsection \<open>Data\<close>

text \<open>
  A \<open>dictEntry\<close> holds its key pointer (\<open>de_key\<close>) and the 64 bits of the union
  \<open>v\<close> (\<open>de_v\<close>); its
  \<open>next\<close> pointer is the rest of the list it stands in: a bucket is the list of the
  entries of its chain, head first, and \<open>NULL\<close> is the empty list.
\<close>

record dictEntry =
  de_key :: ptr
  de_v :: "64 word"

text \<open>The callbacks of \<open>dictType\<close> the modelled functions call: \<open>hashFunction\<close>
  and the optional \<open>keyDup\<close>, \<open>valDup\<close> (\<open>privdata\<close> and the key or value) and
  \<open>keyCompare\<close> (\<open>privdata\<close>, \<open>key1\<close>, \<open>key2\<close>); \<open>None\<close> is a null function
  pointer. The two destructors return nothing and act on what keys and values point to,
  which is no part of the dict.\<close>

record dictType =
  hashFunction :: "ptr \<Rightarrow> 64 word"
  keyDup :: "(ptr \<Rightarrow> ptr \<Rightarrow> ptr) option"
  valDup :: "(ptr \<Rightarrow> ptr \<Rightarrow> ptr) option"
  keyCompare :: "(ptr \<Rightarrow> ptr \<Rightarrow> ptr \<Rightarrow> bool) option"

text \<open>
  \<open>dictht\<close>: \<open>table\<close> is the address of the bucket array (0 is \<open>NULL\<close>),
  \<open>buckets\<close> is what the array holds, one chain for each slot; \<open>size\<close> of the source
  is \<open>ht_size\<close> here, \<open>sizemask\<close> and \<open>used\<close> likewise.
\<close>

record dictht =
  table :: ptr
  buckets :: "dictEntry list list"
  ht_size :: ulong
  ht_sizemask :: ulong
  ht_used :: ulong

text \<open>
  \<open>dict\<close>: \<open>ht0\<close> and \<open>ht1\<close> are \<open>ht[0]\<close> and \<open>ht[1]\<close>; \<open>rehashidx\<close> is a
  \<open>long\<close> in two's complement, \<open>- 1\<close> when no rehashing is in progress.
\<close>

record dict =
  type :: dictType
  privdata :: ptr
  ht0 :: dictht
  ht1 :: dictht
  rehashidx :: "64 word"
  iterators :: ulong

definition DICT_OK :: int where "DICT_OK = 0"
definition DICT_ERR :: int where "DICT_ERR = 1"
definition DICT_HT_INITIAL_SIZE :: ulong where "DICT_HT_INITIAL_SIZE = 4"
definition LONG_MAX :: ulong where "LONG_MAX = 9223372036854775807"
definition dict_force_resize_ratio :: ulong where "dict_force_resize_ratio = 5"

definition dictIsRehashing :: "dict \<Rightarrow> bool" where
  "dictIsRehashing d = (rehashidx d \<noteq> - 1)"

definition dictHashKey :: "dict \<Rightarrow> ptr \<Rightarrow> 64 word" where
  "dictHashKey d k = hashFunction (type d) k"

definition dictCompareKeys :: "dict \<Rightarrow> ptr \<Rightarrow> ptr \<Rightarrow> bool" where
  "dictCompareKeys d key1 key2 =
     (case keyCompare (type d) of
        Some f \<Rightarrow> f (privdata d) key1 key2
      | None \<Rightarrow> key1 = key2)"

text \<open>\<open>_dictReset\<close>\<close>

definition dictReset :: "dictht \<Rightarrow> dictht" where
  "dictReset ht = ht\<lparr>table := 0, buckets := [], ht_size := 0, ht_sizemask := 0, ht_used := 0\<rparr>"

subsection \<open>Expansion\<close>

text \<open>
  \<open>_dictNextPower\<close>: the loop \<open>while(1) { if (i >= size) return i; i *= 2; }\<close> on
  \<open>unsigned long\<close>. A run that never returns is the value \<open>None\<close>.
\<close>

partial_function (option) dictNextPower_loop :: "ulong \<Rightarrow> ulong \<Rightarrow> ulong option" where
  "dictNextPower_loop sz i = (if i \<ge> sz then Some i else dictNextPower_loop sz (i * 2))"

declare dictNextPower_loop.simps [code]

definition dictNextPower :: "ulong \<Rightarrow> ulong option" where
  "dictNextPower sz =
     (if sz \<ge> LONG_MAX then Some (LONG_MAX + 1)
      else dictNextPower_loop sz DICT_HT_INITIAL_SIZE)"

text \<open>
  \<open>dictExpand\<close>. \<open>zcalloc\<close> is a parameter: \<open>p\<close> is the address it returns for the
  request of \<open>realsize*sizeof(dictEntry*)\<close> bytes. The product is computed in
  \<open>unsigned long\<close>, and the block holds one slot for every eight bytes granted, each
  \<open>NULL\<close>. \<open>dictExpand_table\<close> is the local \<open>n\<close>, the new hash table;
  \<open>dictExpand_install\<close> is the end of the function, which installs it as \<open>ht[0]\<close> on
  the first initialisation and as \<open>ht[1]\<close>, with \<open>rehashidx = 0\<close>, otherwise. The
  result is the return value with the dict after the call.
\<close>

definition dictExpand_table :: "ptr \<Rightarrow> ulong \<Rightarrow> dictht" where
  "dictExpand_table p realsize =
     \<lparr>table = p,
      buckets = replicate (unat (realsize * 8) div 8) [],
      ht_size = realsize,
      ht_sizemask = realsize - 1,
      ht_used = 0\<rparr>"

definition dictExpand_install :: "dict \<Rightarrow> dictht \<Rightarrow> dict" where
  "dictExpand_install d n =
     (if table (ht0 d) = 0 then d\<lparr>ht0 := n\<rparr>
      else d\<lparr>ht1 := n, rehashidx := 0\<rparr>)"

definition dictExpand :: "ptr \<Rightarrow> dict \<Rightarrow> ulong \<Rightarrow> (int \<times> dict) option" where
  "dictExpand p d sz =
     (if dictIsRehashing d \<or> ht_used (ht0 d) > sz then Some (DICT_ERR, d)
      else
        (case dictNextPower sz of
           None \<Rightarrow> None
         | Some realsize \<Rightarrow>
             if realsize = ht_size (ht0 d) then Some (DICT_ERR, d)
             else Some (DICT_OK, dictExpand_install d (dictExpand_table p realsize))))"

text \<open>
  \<open>_dictExpandIfNeeded\<close>; \<open>can_resize\<close> is the global \<open>dict_can_resize\<close>. The
  quotient \<open>used/size\<close> is the division of \<open>unsigned long\<close>, reached with
  \<open>size \<noteq> 0\<close> only.
\<close>

definition dictExpandIfNeeded :: "bool \<Rightarrow> ptr \<Rightarrow> dict \<Rightarrow> (int \<times> dict) option" where
  "dictExpandIfNeeded can_resize p d =
     (if dictIsRehashing d then Some (DICT_OK, d)
      else if ht_size (ht0 d) = 0 then dictExpand p d DICT_HT_INITIAL_SIZE
      else if ht_used (ht0 d) \<ge> ht_size (ht0 d)
              \<and> (can_resize \<or> ht_used (ht0 d) div ht_size (ht0 d) > dict_force_resize_ratio)
        then dictExpand p d (ht_used (ht0 d) * 2)
      else Some (DICT_OK, d))"


subsection \<open>Example dicts\<close>

text \<open>A dict of four buckets holding four keys, hashed by their address, and the same
  dict after \<open>dictExpand\<close> to eight buckets.\<close>

definition dict_example :: dict where
  "dict_example =
     \<lparr>type = \<lparr>hashFunction = (\<lambda>k. k), keyDup = None, valDup = None, keyCompare = None\<rparr>,
      privdata = 0,
      ht0 = \<lparr>table = 4096,
             buckets = [[\<lparr>de_key = 4, de_v = 0\<rparr>], [\<lparr>de_key = 5, de_v = 0\<rparr>, \<lparr>de_key = 1, de_v = 0\<rparr>], [],
                        [\<lparr>de_key = 7, de_v = 0\<rparr>]],
             ht_size = 4, ht_sizemask = 3, ht_used = 4\<rparr>,
      ht1 = \<lparr>table = 0, buckets = [], ht_size = 0, ht_sizemask = 0, ht_used = 0\<rparr>,
      rehashidx = - 1, iterators = 0\<rparr>"

definition dict_example_rehashing :: dict where
  "dict_example_rehashing =
     dict_example\<lparr>ht1 := \<lparr>table = 8192, buckets = [[], [], [], [], [], [], [], []],
                          ht_size = 8, ht_sizemask = 7, ht_used = 0\<rparr>,
                   rehashidx := 0\<rparr>"

subsection \<open>Incremental rehashing\<close>

text \<open>
  How a call can end without returning: a failed \<open>assert\<close>, a bucket read or written
  outside its array, an overflow of a signed integer.
\<close>

datatype dict_abort = Assert_failed | Out_of_bounds | Signed_overflow

definition INT_MIN :: int where
  "INT_MIN = - 2147483648"

text \<open>
  The loop \<open>while(de)\<close> of \<open>dictRehash\<close> over the chain found at
  \<open>ht[0].table[rehashidx]\<close>: each entry is put at the head of the bucket
  \<open>dictHashKey(d, de->key) & ht[1].sizemask\<close> of \<open>ht[1]\<close>, and the two \<open>used\<close>
  counters follow.
\<close>

fun dictRehash_chain ::
  "dict \<Rightarrow> dictEntry list \<Rightarrow> dictht \<Rightarrow> dictht \<Rightarrow> dict_abort + (dictht \<times> dictht)" where
  "dictRehash_chain d [] h0 h1 = Inr (h0, h1)"
| "dictRehash_chain d (de # nextde) h0 h1 =
     (let h = dictHashKey d (de_key de) AND ht_sizemask h1
      in if length (buckets h1) \<le> unat h then Inl Out_of_bounds
         else dictRehash_chain d nextde
                (h0\<lparr>ht_used := ht_used h0 - 1\<rparr>)
                (h1\<lparr>buckets := (buckets h1)[unat h := de # buckets h1 ! unat h],
                    ht_used := ht_used h1 + 1\<rparr>))"

text \<open>
  The loop \<open>while(d->ht[0].table[d->rehashidx] == NULL)\<close>, run over the buckets from
  \<open>rehashidx\<close> on: \<open>k\<close> counts the buckets passed. The result tells whether the loop
  hit \<open>return 1\<close>, how many buckets it passed, and \<open>empty_visits\<close>.
\<close>

fun dictRehash_scan ::
  "dictEntry list list \<Rightarrow> nat \<Rightarrow> int \<Rightarrow> dict_abort + (bool \<times> nat \<times> int)" where
  "dictRehash_scan [] k empty_visits = Inl Out_of_bounds"
| "dictRehash_scan (b # bs) k empty_visits =
     (if b = [] then
        (if empty_visits \<le> INT_MIN then Inl Signed_overflow
         else if empty_visits - 1 = 0 then Inr (True, Suc k, empty_visits - 1)
         else dictRehash_scan bs (Suc k) (empty_visits - 1))
      else Inr (False, k, empty_visits))"

text \<open>
  The body of the loop \<open>while(n-- && d->ht[0].used != 0)\<close>: the assertion, the scan, the
  migration of the chain, \<open>ht[0].table[rehashidx] = NULL\<close> and \<open>rehashidx++\<close>. The bucket
  the scan stopped at is number \<open>unat rehashidx + k\<close> of the array. The result tells
  whether the body returned 1, and gives the dict and \<open>empty_visits\<close>.
\<close>

definition dictRehash_step :: "dict \<Rightarrow> int \<Rightarrow> dict_abort + (bool \<times> dict \<times> int)" where
  "dictRehash_step d empty_visits =
     (if \<not> ht_size (ht0 d) > rehashidx d then Inl Assert_failed
      else
        (case dictRehash_scan (drop (unat (rehashidx d)) (buckets (ht0 d))) 0 empty_visits of
           Inl e \<Rightarrow> Inl e
         | Inr (gave_up, k, ev) \<Rightarrow>
             if gave_up then Inr (True, d\<lparr>rehashidx := rehashidx d + of_nat k\<rparr>, ev)
             else
               let i = unat (rehashidx d) + k
               in (case dictRehash_chain d (buckets (ht0 d) ! i) (ht0 d) (ht1 d) of
                     Inl e \<Rightarrow> Inl e
                   | Inr (h0, h1) \<Rightarrow>
                       Inr (False,
                            d\<lparr>ht0 := h0\<lparr>buckets := (buckets h0)[i := []]\<rparr>,
                              ht1 := h1,
                              rehashidx := rehashidx d + of_nat k + 1\<rparr>,
                            ev))))"

text \<open>
  The end of \<open>dictRehash\<close>: the return value, the dict, and the addresses handed to
  \<open>zfree\<close>.
\<close>

definition dictRehash_finish :: "dict \<Rightarrow> int \<times> dict \<times> ptr list" where
  "dictRehash_finish d =
     (if ht_used (ht0 d) = 0
      then (0, d\<lparr>ht0 := ht1 d, ht1 := dictReset (ht1 d), rehashidx := - 1\<rparr>, [table (ht0 d)])
      else (1, d, []))"

lemma dictRehash_chain_buckets:
  "dictRehash_chain d c h0 h1 = Inr (h0', h1') \<Longrightarrow> buckets h0' = buckets h0"
  by (induction c arbitrary: h0 h1) (auto simp: Let_def split: if_splits)

lemma dictRehash_scan_found:
  "dictRehash_scan bs k ev = Inr (False, k', ev') \<Longrightarrow>
     k \<le> k' \<and> k' - k < length bs \<and> bs ! (k' - k) \<noteq> []"
proof (induction bs arbitrary: k ev)
  case Nil
  then show ?case by simp
next
  case (Cons b bs)
  show ?case
  proof (cases "b = []")
    case True
    with Cons.prems have "dictRehash_scan bs (Suc k) (ev - 1) = Inr (False, k', ev')"
      by (simp split: if_splits)
    from Cons.IH[OF this] True show ?thesis
      by (auto simp: Suc_diff_le)
  next
    case False
    with Cons.prems show ?thesis by simp
  qed
qed

lemma dictRehash_step_measure:
  assumes "dictRehash_step d ev = Inr (False, d', ev')"
  shows "length (filter (\<lambda>b. b \<noteq> []) (buckets (ht0 d')))
           < length (filter (\<lambda>b. b \<noteq> []) (buckets (ht0 d)))"
proof -
  from assms obtain k h0 h1 where
      sc: "dictRehash_scan (drop (unat (rehashidx d)) (buckets (ht0 d))) 0 ev = Inr (False, k, ev')"
    and ch: "dictRehash_chain d (buckets (ht0 d) ! (unat (rehashidx d) + k)) (ht0 d) (ht1 d)
               = Inr (h0, h1)"
    and d': "buckets (ht0 d') = (buckets h0)[unat (rehashidx d) + k := []]"
    by (auto simp: dictRehash_step_def Let_def split: if_splits sum.splits prod.splits)
  let ?bs = "buckets (ht0 d)" and ?i = "unat (rehashidx d) + k"
  from dictRehash_scan_found[OF sc] have i: "?i < length ?bs" "?bs ! ?i \<noteq> []"
    by (auto simp: add.commute)
  have b0: "buckets h0 = ?bs" by (rule dictRehash_chain_buckets[OF ch])
  let ?P = "\<lambda>b :: dictEntry list. b \<noteq> []"
  have "length (filter ?P ?bs)
      = length (filter ?P (take ?i ?bs @ ?bs ! ?i # drop (Suc ?i) ?bs))"
    using i(1) by (simp only: id_take_nth_drop[symmetric])
  also have "\<dots> = length (filter ?P (take ?i ?bs)) + 1 + length (filter ?P (drop (Suc ?i) ?bs))"
    using i(2) by simp
  finally have l1: "length (filter ?P ?bs)
      = length (filter ?P (take ?i ?bs)) + 1 + length (filter ?P (drop (Suc ?i) ?bs))" .
  have "length (filter ?P (?bs[?i := []]))
      = length (filter ?P (take ?i ?bs @ [] # drop (Suc ?i) ?bs))"
    using i(1) by (simp only: upd_conv_take_nth_drop)
  also have "\<dots> = length (filter ?P (take ?i ?bs)) + length (filter ?P (drop (Suc ?i) ?bs))"
    by simp
  finally have "length (filter ?P (?bs[?i := []])) < length (filter ?P ?bs)"
    using l1 by simp
  then show ?thesis using d' b0 by simp
qed

text \<open>
  The loop \<open>while(n-- && d->ht[0].used != 0)\<close> with what follows it. It ends because
  every round empties a bucket that was not empty.
\<close>

function dictRehash_loop :: "dict \<Rightarrow> int \<Rightarrow> int \<Rightarrow> dict_abort + (int \<times> dict \<times> ptr list)" where
  "dictRehash_loop d n empty_visits =
     (if n \<le> INT_MIN then Inl Signed_overflow
      else if n \<noteq> 0 \<and> ht_used (ht0 d) \<noteq> 0 then
        (case dictRehash_step d empty_visits of
           Inl e \<Rightarrow> Inl e
         | Inr (gave_up, d', ev) \<Rightarrow>
             if gave_up then Inr (1, d', [])
             else dictRehash_loop d' (n - 1) ev)
      else Inr (dictRehash_finish d))"
  by pat_completeness auto
termination
  by (relation "measure (\<lambda>(d, n, ev). length (filter (\<lambda>b. b \<noteq> []) (buckets (ht0 d))))")
     (auto dest: dictRehash_step_measure)

declare dictRehash_loop.simps [simp del]

text \<open>\<open>dictRehash(d, n)\<close>: \<open>empty_visits = n*10\<close> is an \<open>int\<close>.\<close>

definition dictRehash :: "dict \<Rightarrow> int \<Rightarrow> dict_abort + (int \<times> dict \<times> ptr list)" where
  "dictRehash d n =
     (if n * 10 > INT_MAX \<or> n * 10 < INT_MIN then Inl Signed_overflow
      else if \<not> dictIsRehashing d then Inr (0, d, [])
      else dictRehash_loop d n (n * 10))"

text \<open>\<open>_dictRehashStep\<close>: the value of \<open>dictRehash\<close> is dropped.\<close>

definition dictRehashStep :: "dict \<Rightarrow> dict_abort + dict" where
  "dictRehashStep d =
     (if iterators d = 0 then
        (case dictRehash d 1 of Inl e \<Rightarrow> Inl e | Inr (r, d', freed) \<Rightarrow> Inr d')
      else Inr d)"

text \<open>
  The rehash in the specification's words. \<open>rehash_place\<close> puts an entry at the head of
  the bucket of \<open>T[1]\<close> that its key hashes to under the mask of \<open>T[1]\<close>.
  \<open>rehash_spec n budget d\<close> repeats, while \<open>n > 0\<close> and \<open>T[0].used > 0\<close>: count the
  empty buckets from the cursor to the next bucket that is not empty; when the budget of
  empty visits does not reach beyond them, stop there and return 1 (more work
  pending); otherwise move the whole chain of that bucket into \<open>T[1]\<close>, clear the bucket,
  put the cursor behind it (\<open>rehash_move\<close>), and go on with \<open>n - 1\<close> and what is left of the budget. At
  the end, when \<open>T[0].used\<close> is 0, \<open>T[0]\<close>'s array is freed, \<open>T[1]\<close> becomes
  \<open>T[0]\<close>, \<open>T[1]\<close> is reset, the cursor is \<open>- 1\<close> and the value is 0 (done).
\<close>

definition rehash_place :: "dict \<Rightarrow> dictEntry list list \<Rightarrow> dictEntry \<Rightarrow> dictEntry list list" where
  "rehash_place d t1 e =
     (let i = unat (dictHashKey d (de_key e) AND ht_sizemask (ht1 d))
      in t1[i := e # t1 ! i])"

definition rehash_done :: "dict \<Rightarrow> int \<times> dict \<times> ptr list" where
  "rehash_done d =
     (if ht_used (ht0 d) = 0
      then (0, d\<lparr>ht0 := ht1 d,
                  ht1 := \<lparr>table = 0, buckets = [], ht_size = 0, ht_sizemask = 0, ht_used = 0\<rparr>,
                  rehashidx := - 1\<rparr>,
            [table (ht0 d)])
      else (1, d, []))"

definition rehash_move :: "dict \<Rightarrow> nat \<Rightarrow> dict" where
  "rehash_move d i =
     (let chain = buckets (ht0 d) ! i
      in d\<lparr>ht0 := (ht0 d)\<lparr>buckets := (buckets (ht0 d))[i := []],
                           ht_used := ht_used (ht0 d) - of_nat (length chain)\<rparr>,
            ht1 := (ht1 d)\<lparr>buckets := foldl (rehash_place d) (buckets (ht1 d)) chain,
                           ht_used := ht_used (ht1 d) + of_nat (length chain)\<rparr>,
            rehashidx := of_nat (i + 1)\<rparr>)"

fun rehash_spec :: "nat \<Rightarrow> nat \<Rightarrow> dict \<Rightarrow> int \<times> dict \<times> ptr list" where
  "rehash_spec 0 budget d = rehash_done d"
| "rehash_spec (Suc n) budget d =
     (if ht_used (ht0 d) = 0 then rehash_done d
      else
        let r = unat (rehashidx d);
            empties = length (takeWhile (\<lambda>b. b = []) (drop r (buckets (ht0 d))))
        in if budget \<le> empties then (1, d\<lparr>rehashidx := of_nat (r + budget)\<rparr>, [])
           else rehash_spec n (budget - empties) (rehash_move d (r + empties)))"

text \<open>
  What the loop of \<open>dictRehash\<close> relies on: the bucket arrays have the sizes the tables
  record, the mask of \<open>ht[1]\<close> stays inside its array, and \<open>ht[0].used\<close> counts the
  entries of the buckets from the cursor on. A dict in the migrating state has, besides,
  a cursor that is not negative.
\<close>

definition dict_rehash_inv :: "dict \<Rightarrow> bool" where
  "dict_rehash_inv d =
     (length (buckets (ht0 d)) = unat (ht_size (ht0 d))
      \<and> length (buckets (ht1 d)) = unat (ht_size (ht1 d))
      \<and> ht_sizemask (ht1 d) < ht_size (ht1 d)
      \<and> unat (ht_used (ht0 d))
          = length (concat (drop (unat (rehashidx d)) (buckets (ht0 d)))))"

definition dict_migrating :: "dict \<Rightarrow> bool" where
  "dict_migrating d = (0 \<le> sint (rehashidx d) \<and> dict_rehash_inv d)"

subsection \<open>Lookup\<close>

text \<open>
  \<open>dictFind\<close>. \<open>dictFind_chain\<close> is the loop \<open>while(he)\<close> over one chain,
  \<open>dictFind_table\<close> one round of the loop \<open>for (table = 0; table <= 1; table++)\<close>:
  the entry found in that table, if any. The result of \<open>dictFind\<close> is the entry
  returned (\<open>None\<close> for \<open>NULL\<close>) with the dict after the call.
\<close>

fun dictFind_chain :: "dict \<Rightarrow> ptr \<Rightarrow> dictEntry list \<Rightarrow> dictEntry option" where
  "dictFind_chain d k [] = None"
| "dictFind_chain d k (he # rest) =
     (if k = de_key he \<or> dictCompareKeys d k (de_key he) then Some he
      else dictFind_chain d k rest)"



text \<open>The rehashing example dict after its bucket 0 has been moved.\<close>

definition dict_example_step :: dict where
  "dict_example_step =
     dict_example_rehashing
       \<lparr>ht0 := \<lparr>table = 4096,
                buckets = [[], [\<lparr>de_key = 5, de_v = 0\<rparr>, \<lparr>de_key = 1, de_v = 0\<rparr>], [],
                           [\<lparr>de_key = 7, de_v = 0\<rparr>]],
                ht_size = 4, ht_sizemask = 3, ht_used = 3\<rparr>,
        ht1 := \<lparr>table = 8192,
                buckets = [[], [], [], [], [\<lparr>de_key = 4, de_v = 0\<rparr>], [], [], []],
                ht_size = 8, ht_sizemask = 7, ht_used = 1\<rparr>,
        rehashidx := 1\<rparr>"

subsection \<open>Insertion and deletion\<close>

text \<open>
  \<open>_dictKeyIndex(d, key, hash, existing)\<close>. \<open>dictKeyIndex_table\<close> is one round of its
  loop over the tables: the slot \<open>idx\<close> and the entry of the chain that holds the key, if
  any. The result of \<open>dictKeyIndex\<close> is the \<open>long\<close> returned (\<open>- 1\<close> when the expansion
  check fails or the key is there; the slot otherwise, converted from \<open>unsigned long\<close>),
  the value of \<open>*existing\<close> and the dict, which the expansion check may have changed.
  \<open>can_resize\<close> and \<open>p\<close> are the parameters of \<open>dictExpandIfNeeded\<close>; a call that does
  not return is \<open>None\<close>.
\<close>

definition dictKeyIndex_table ::
  "dict \<Rightarrow> ptr \<Rightarrow> 64 word \<Rightarrow> dictht \<Rightarrow> dict_abort + (ulong \<times> dictEntry option)" where
  "dictKeyIndex_table d k hash ht =
     (let idx = hash AND ht_sizemask ht
      in if length (buckets ht) \<le> unat idx then Inl Out_of_bounds
         else Inr (idx, dictFind_chain d k (buckets ht ! unat idx)))"

definition dictKeyIndex ::
  "bool \<Rightarrow> ptr \<Rightarrow> dict \<Rightarrow> ptr \<Rightarrow> 64 word
     \<Rightarrow> (dict_abort + (64 word \<times> dictEntry option \<times> dict)) option" where
  "dictKeyIndex can_resize p d k hash =
     (case dictExpandIfNeeded can_resize p d of
        None \<Rightarrow> None
      | Some (r, d) \<Rightarrow>
          if r = DICT_ERR then Some (Inr (- 1, None, d))
          else
            (case dictKeyIndex_table d k hash (ht0 d) of
               Inl e \<Rightarrow> Some (Inl e)
             | Inr (idx, Some he) \<Rightarrow> Some (Inr (- 1, Some he, d))
             | Inr (idx, None) \<Rightarrow>
                 if \<not> dictIsRehashing d then Some (Inr (idx, None, d))
                 else
                   (case dictKeyIndex_table d k hash (ht1 d) of
                      Inl e \<Rightarrow> Some (Inl e)
                    | Inr (idx, Some he) \<Rightarrow> Some (Inr (- 1, Some he, d))
                    | Inr (idx, None) \<Rightarrow> Some (Inr (idx, None, d)))))"

text \<open>
  \<open>dictAddRaw(d, key, existing)\<close>. The new entry becomes the head of chain \<open>index\<close> of
  \<open>ht[1]\<close> while rehashing and of \<open>ht[0]\<close> otherwise, \<open>used\<close> is incremented and the key
  stored is \<open>keyDup(privdata, key)\<close>, or \<open>key\<close> when there is no \<open>keyDup\<close>. The union
  \<open>v\<close> of the entry holds what \<open>zmalloc\<close> hands out, \<open>v0\<close>. The result is the entry
  returned, as the table (0 or 1) and the chain it heads (\<open>None\<close> for \<open>NULL\<close>), with the
  dict after the call.
\<close>

definition dictAddRaw_insert :: "dictht \<Rightarrow> 64 word \<Rightarrow> dictEntry \<Rightarrow> dict_abort + dictht" where
  "dictAddRaw_insert ht index entry =
     (if length (buckets ht) \<le> unat index then Inl Out_of_bounds
      else Inr (ht\<lparr>buckets := (buckets ht)[unat index := entry # buckets ht ! unat index],
                  ht_used := ht_used ht + 1\<rparr>))"

definition dictAddRaw ::
  "bool \<Rightarrow> ptr \<Rightarrow> 64 word \<Rightarrow> dict \<Rightarrow> ptr
     \<Rightarrow> (dict_abort + ((nat \<times> 64 word) option \<times> dict)) option" where
  "dictAddRaw can_resize p v0 d k =
     (case (if dictIsRehashing d then dictRehashStep d else Inr d) of
        Inl e \<Rightarrow> Some (Inl e)
      | Inr d \<Rightarrow>
          (case dictKeyIndex can_resize p d k (dictHashKey d k) of
             None \<Rightarrow> None
           | Some (Inl e) \<Rightarrow> Some (Inl e)
           | Some (Inr (index, existing, d)) \<Rightarrow>
               if index = - 1 then Some (Inr (None, d))
               else
                 let entry = \<lparr>de_key = (case keyDup (type d) of
                                            Some f \<Rightarrow> f (privdata d) k | None \<Rightarrow> k),
                              de_v = v0\<rparr>
                 in if dictIsRehashing d then
                      (case dictAddRaw_insert (ht1 d) index entry of
                         Inl e \<Rightarrow> Some (Inl e)
                       | Inr ht \<Rightarrow> Some (Inr (Some (1, index), d\<lparr>ht1 := ht\<rparr>)))
                    else
                      (case dictAddRaw_insert (ht0 d) index entry of
                         Inl e \<Rightarrow> Some (Inl e)
                       | Inr ht \<Rightarrow> Some (Inr (Some (0, index), d\<lparr>ht0 := ht\<rparr>)))))"

text \<open>\<open>dictSetVal(d, entry, val)\<close> on the entry that heads a chain: the value stored is
  \<open>valDup(privdata, val)\<close>, or \<open>val\<close> when there is no \<open>valDup\<close>.\<close>

definition dictSetVal_head :: "dict \<Rightarrow> dictht \<Rightarrow> 64 word \<Rightarrow> ptr \<Rightarrow> dictht" where
  "dictSetVal_head d ht index val =
     (case buckets ht ! unat index of
        [] \<Rightarrow> ht
      | he # rest \<Rightarrow>
          ht\<lparr>buckets := (buckets ht)
                 [unat index := he\<lparr>de_v := (case valDup (type d) of
                                               Some f \<Rightarrow> f (privdata d) val | None \<Rightarrow> val)\<rparr>
                                # rest]\<rparr>)"

text \<open>\<open>dictAdd(d, key, val)\<close>: the return value with the dict after the call.\<close>

definition dictAdd ::
  "bool \<Rightarrow> ptr \<Rightarrow> 64 word \<Rightarrow> dict \<Rightarrow> ptr \<Rightarrow> ptr \<Rightarrow> (dict_abort + (int \<times> dict)) option" where
  "dictAdd can_resize p v0 d k val =
     (case dictAddRaw can_resize p v0 d k of
        None \<Rightarrow> None
      | Some (Inl e) \<Rightarrow> Some (Inl e)
      | Some (Inr (None, d)) \<Rightarrow> Some (Inr (DICT_ERR, d))
      | Some (Inr (Some (t, index), d)) \<Rightarrow>
          Some (Inr (DICT_OK,
             if t = 0 then d\<lparr>ht0 := dictSetVal_head d (ht0 d) index val\<rparr>
             else d\<lparr>ht1 := dictSetVal_head d (ht1 d) index val\<rparr>)))"

text \<open>
  \<open>dictGenericDelete(d, key, nofree)\<close>. \<open>dictGenericDelete_chain\<close> is the loop
  \<open>while(he)\<close>: the first entry of the chain holding the key and the chain without it.
  \<open>dictGenericDelete_table\<close> is one round of the loop over the tables: the entry
  unlinked, if any, and the table after it. The result of \<open>dictGenericDelete\<close> is the
  entry returned (\<open>None\<close> for \<open>NULL\<close>) with the dict after the call; freeing the entry when
  \<open>nofree\<close> is 0 changes nothing in the dict.
\<close>

fun dictGenericDelete_chain ::
  "dict \<Rightarrow> ptr \<Rightarrow> dictEntry list \<Rightarrow> (dictEntry \<times> dictEntry list) option" where
  "dictGenericDelete_chain d k [] = None"
| "dictGenericDelete_chain d k (he # rest) =
     (if k = de_key he \<or> dictCompareKeys d k (de_key he) then Some (he, rest)
      else (case dictGenericDelete_chain d k rest of
              None \<Rightarrow> None
            | Some (x, rest') \<Rightarrow> Some (x, he # rest')))"

definition dictGenericDelete_table ::
  "dict \<Rightarrow> ptr \<Rightarrow> 64 word \<Rightarrow> dictht \<Rightarrow> dict_abort + (dictEntry option \<times> dictht)" where
  "dictGenericDelete_table d k h ht =
     (let idx = h AND ht_sizemask ht
      in if length (buckets ht) \<le> unat idx then Inl Out_of_bounds
         else
           (case dictGenericDelete_chain d k (buckets ht ! unat idx) of
              None \<Rightarrow> Inr (None, ht)
            | Some (he, chain) \<Rightarrow>
                Inr (Some he, ht\<lparr>buckets := (buckets ht)[unat idx := chain],
                                 ht_used := ht_used ht - 1\<rparr>)))"

definition dictGenericDelete ::
  "dict \<Rightarrow> ptr \<Rightarrow> int \<Rightarrow> dict_abort + (dictEntry option \<times> dict)" where
  "dictGenericDelete d k nofree =
     (if ht_used (ht0 d) = 0 \<and> ht_used (ht1 d) = 0 then Inr (None, d)
      else
        (case (if dictIsRehashing d then dictRehashStep d else Inr d) of
           Inl e \<Rightarrow> Inl e
         | Inr d \<Rightarrow>
             (case dictGenericDelete_table d k (dictHashKey d k) (ht0 d) of
                Inl e \<Rightarrow> Inl e
              | Inr (Some he, ht) \<Rightarrow> Inr (Some he, d\<lparr>ht0 := ht\<rparr>)
              | Inr (None, ht) \<Rightarrow>
                  if \<not> dictIsRehashing d then Inr (None, d)
                  else
                    (case dictGenericDelete_table d k (dictHashKey d k) (ht1 d) of
                       Inl e \<Rightarrow> Inl e
                     | Inr (Some he, ht) \<Rightarrow> Inr (Some he, d\<lparr>ht1 := ht\<rparr>)
                     | Inr (None, ht) \<Rightarrow> Inr (None, d)))))"

text \<open>\<open>dictDelete(ht, key)\<close>: \<open>dictGenericDelete(ht,key,0) ? DICT_OK : DICT_ERR\<close>.\<close>

definition dictDelete :: "dict \<Rightarrow> ptr \<Rightarrow> dict_abort + (int \<times> dict)" where
  "dictDelete d k =
     (case dictGenericDelete d k 0 of
        Inl e \<Rightarrow> Inl e
      | Inr (r, d) \<Rightarrow> Inr (if r \<noteq> None then DICT_OK else DICT_ERR, d))"

text \<open>The example dict after \<open>dictDelete\<close> of key 4, and after \<open>dictAdd\<close> of key 8 with
  value 0 to that.\<close>

definition dict_example_deleted :: dict where
  "dict_example_deleted =
     dict_example
       \<lparr>ht0 := \<lparr>table = 4096,
                buckets = [[], [\<lparr>de_key = 5, de_v = 0\<rparr>, \<lparr>de_key = 1, de_v = 0\<rparr>], [],
                           [\<lparr>de_key = 7, de_v = 0\<rparr>]],
                ht_size = 4, ht_sizemask = 3, ht_used = 3\<rparr>\<rparr>"

definition dict_example_replaced :: dict where
  "dict_example_replaced =
     dict_example
       \<lparr>ht0 := \<lparr>table = 4096,
                buckets = [[\<lparr>de_key = 8, de_v = 0\<rparr>],
                           [\<lparr>de_key = 5, de_v = 0\<rparr>, \<lparr>de_key = 1, de_v = 0\<rparr>], [],
                           [\<lparr>de_key = 7, de_v = 0\<rparr>]],
                ht_size = 4, ht_sizemask = 3, ht_used = 4\<rparr>\<rparr>"

subsection \<open>Iterators\<close>

text \<open>
  \<open>dictFingerprint\<close>: the six \<open>long long\<close> values are hashed in two's complement;
  \<open>+\<close> and \<open><<\<close> wrap around and \<open>>>\<close> on the signed \<open>hash\<close> keeps the sign bit
  (\<open>signed_drop_bit\<close>), as the compilers of the store do. \<open>dictFingerprint_step\<close> is the
  body of the loop \<open>for (j = 0; j < 6; j++)\<close>.
\<close>

definition dictFingerprint_step :: "64 word \<Rightarrow> 64 word \<Rightarrow> 64 word" where
  "dictFingerprint_step hash x =
     (let hash = hash + x;
          hash = NOT hash + push_bit 21 hash;
          hash = hash XOR signed_drop_bit 24 hash;
          hash = (hash + push_bit 3 hash) + push_bit 8 hash;
          hash = hash XOR signed_drop_bit 14 hash;
          hash = (hash + push_bit 2 hash) + push_bit 4 hash;
          hash = hash XOR signed_drop_bit 28 hash;
          hash = hash + push_bit 31 hash
      in hash)"

definition dictFingerprint :: "dict \<Rightarrow> 64 word" where
  "dictFingerprint d =
     foldl dictFingerprint_step 0
       [table (ht0 d), ht_size (ht0 d), ht_used (ht0 d),
        table (ht1 d), ht_size (ht1 d), ht_used (ht1 d)]"

text \<open>
  \<open>dictIterator\<close>. The dict the iterator points to is passed to the functions beside
  it. \<open>index\<close> is a \<open>long\<close>; \<open>entry\<close> and \<open>nextEntry\<close> point into a chain
  and are the chain from that entry on (\<open>[]\<close> for \<open>NULL\<close>). The fields are written
  \<open>it_index\<close>, \<open>it_table\<close>, \<open>it_safe\<close>, \<open>it_entry\<close>, \<open>it_nextEntry\<close> and
  \<open>it_fingerprint\<close>.
\<close>

record dictIterator =
  it_index :: int
  it_table :: int
  it_safe :: int
  it_entry :: "dictEntry list"
  it_nextEntry :: "dictEntry list"
  it_fingerprint :: "64 word"

text \<open>\<open>dictGetIterator\<close> leaves \<open>fingerprint\<close> as \<open>zmalloc\<close> hands it out: \<open>fresh\<close>.\<close>

definition dictGetIterator :: "64 word \<Rightarrow> dictIterator" where
  "dictGetIterator fresh =
     \<lparr>it_index = - 1, it_table = 0, it_safe = 0, it_entry = [], it_nextEntry = [],
      it_fingerprint = fresh\<rparr>"

definition dictGetSafeIterator :: "64 word \<Rightarrow> dictIterator" where
  "dictGetSafeIterator fresh = (dictGetIterator fresh)\<lparr>it_safe := 1\<rparr>"

text \<open>
  One round of the loop \<open>while (1)\<close> of \<open>dictNext\<close>: it returns an entry or \<open>NULL\<close>,
  aborts on a read outside a bucket array, or goes round again.
\<close>

datatype dictNext_round = Returned "dictEntry option" dictIterator dict
  | Aborted dict_abort
  | Again dictIterator dict

text \<open>The end of a round: \<open>if (iter->entry) { nextEntry = entry->next; return entry; }\<close>.\<close>

definition dictNext_return :: "dictIterator \<Rightarrow> dict \<Rightarrow> dictNext_round" where
  "dictNext_return iter d =
     (case it_entry iter of
        [] \<Rightarrow> Again iter d
      | e # next \<Rightarrow> Returned (Some e) (iter\<lparr>it_nextEntry := next\<rparr>) d)"

text \<open>The read \<open>ht->table[iter->index]\<close>.\<close>

definition dictNext_bucket :: "dictIterator \<Rightarrow> dict \<Rightarrow> dictht \<Rightarrow> dictNext_round" where
  "dictNext_bucket iter d ht =
     (if it_index iter < 0 \<or> int (length (buckets ht)) \<le> it_index iter then Aborted Out_of_bounds
      else dictNext_return (iter\<lparr>it_entry := buckets ht ! nat (it_index iter)\<rparr>) d)"

definition dictNext_round :: "dictIterator \<Rightarrow> dict \<Rightarrow> dictNext_round" where
  "dictNext_round iter d =
     (if it_entry iter = [] then
        (if it_table iter \<noteq> 0 \<and> it_table iter \<noteq> 1 then Aborted Out_of_bounds
         else
           let ht = (if it_table iter = 0 then ht0 d else ht1 d);
               first = (it_index iter = - 1 \<and> it_table iter = 0);
               d = (if first \<and> it_safe iter \<noteq> 0 then d\<lparr>iterators := iterators d + 1\<rparr> else d);
               iter = (if first \<and> it_safe iter = 0
                       then iter\<lparr>it_fingerprint := dictFingerprint d\<rparr> else iter);
               iter = iter\<lparr>it_index := it_index iter + 1\<rparr>
           in if it_index iter \<ge> sint (ht_size ht) then
                (if dictIsRehashing d \<and> it_table iter = 0
                 then dictNext_bucket (iter\<lparr>it_table := it_table iter + 1, it_index := 0\<rparr>) d (ht1 d)
                 else Returned None iter d)
              else dictNext_bucket iter d ht)
      else dictNext_return (iter\<lparr>it_entry := it_nextEntry iter\<rparr>) d)"

text \<open>What is left to visit, for the termination of \<open>dictNext\<close>.\<close>

definition dictNext_left :: "dictIterator \<Rightarrow> dict \<Rightarrow> nat" where
  "dictNext_left iter d =
     (if it_entry iter = [] then 0 else 1)
     + 2 * (if it_table iter = 0
            then nat (sint (ht_size (ht0 d)) - it_index iter)
                 + (if dictIsRehashing d then nat (sint (ht_size (ht1 d))) + 1 else 0)
            else nat (sint (ht_size (ht1 d)) - it_index iter))"

lemma dictNext_round_left:
  "dictNext_round iter d = Again iter' d' \<Longrightarrow> dictNext_left iter' d' < dictNext_left iter d"
  by (auto simp: dictNext_round_def dictNext_left_def dictNext_bucket_def dictNext_return_def
      dictIsRehashing_def Let_def split: if_splits list.splits)

text \<open>\<open>dictNext\<close>: the entry returned (\<open>None\<close> for \<open>NULL\<close>), the iterator and the
  dict after the call.\<close>

function dictNext ::
  "dictIterator \<Rightarrow> dict \<Rightarrow> dict_abort + (dictEntry option \<times> dictIterator \<times> dict)" where
  "dictNext iter d =
     (case dictNext_round iter d of
        Returned e iter' d' \<Rightarrow> Inr (e, iter', d')
      | Aborted a \<Rightarrow> Inl a
      | Again iter' d' \<Rightarrow> dictNext iter' d')"
  by pat_completeness auto
termination
  by (relation "measure (\<lambda>(iter, d). dictNext_left iter d)") (auto dest: dictNext_round_left)

declare dictNext.simps [simp del]

text \<open>\<open>dictReleaseIterator\<close>: the dict after the call, or the failed assertion.\<close>

definition dictReleaseIterator :: "dictIterator \<Rightarrow> dict \<Rightarrow> dict_abort + dict" where
  "dictReleaseIterator iter d =
     (if \<not> (it_index iter = - 1 \<and> it_table iter = 0) then
        (if it_safe iter \<noteq> 0 then Inr (d\<lparr>iterators := iterators d - 1\<rparr>)
         else if it_fingerprint iter = dictFingerprint d then Inr d
         else Inl Assert_failed)
      else Inr d)"

text \<open>
  Bucket arrays as \<open>dictNext\<close> reads them: each as long as its table records, below
  \<open>2^63\<close> slots (the comparison of \<open>dictNext\<close> casts the size to \<open>long\<close>), and a
  second table that is there while rehashing.
\<close>

definition dict_buckets_ok :: "dict \<Rightarrow> bool" where
  "dict_buckets_ok d =
     (length (buckets (ht0 d)) = unat (ht_size (ht0 d))
      \<and> length (buckets (ht1 d)) = unat (ht_size (ht1 d))
      \<and> ht_size (ht0 d) < 2 ^ 63 \<and> ht_size (ht1 d) < 2 ^ 63
      \<and> (if dictIsRehashing d then ht_size (ht1 d) \<noteq> 0 else True))"

text \<open>The iterator over the example dict after its first \<open>dictNext\<close>.\<close>

definition dictIterator_example :: dictIterator where
  "dictIterator_example =
     \<lparr>it_index = 0, it_table = 0, it_safe = 0, it_entry = [\<lparr>de_key = 4, de_v = 0\<rparr>],
      it_nextEntry = [], it_fingerprint = 1962813484467721366\<rparr>"

section \<open>ZIPMAP: the model\<close>

text \<open>
  A zipmap is one allocated block of bytes, \<open>unsigned char *zm\<close>.  The model keeps the
  block as a \<open>byte list\<close> whose length is the size of the allocation, and a pointer into
  the block as its offset from \<open>zm\<close>.  \<open>unsigned int\<close> is 32 bits wide and its arithmetic
  wraps.  Reading or writing outside the block is undefined behaviour in C: every
  function of the model returns \<open>None\<close> there, and \<open>Some\<close> of its result otherwise.
  A failed allocation aborts the process inside \<open>zmalloc\<close> and \<open>zrealloc\<close>, so the
  functions below are the runs in which the allocator succeeds.
\<close>

definition ZIPMAP_BIGLEN :: uint where "ZIPMAP_BIGLEN = 254"
definition ZIPMAP_END :: byte where "ZIPMAP_END = 255"
definition ZIPMAP_VALUE_MAX_FREE :: uint where "ZIPMAP_VALUE_MAX_FREE = 4"

definition ZIPMAP_LEN_BYTES :: "uint \<Rightarrow> uint" where
  "ZIPMAP_LEN_BYTES l = (if l < ZIPMAP_BIGLEN then 1 else 4 + 1)"

text \<open>\<open>*p\<close>, \<open>*p = b\<close>, \<open>memcpy(p, src, n)\<close> from a buffer outside the block,
  \<open>memmove(dst, src, n)\<close> inside the block and \<open>memcmp(p, key, n)\<close>.\<close>

definition zm_read :: "byte list \<Rightarrow> nat \<Rightarrow> byte option" where
  "zm_read zm p = (if p < length zm then Some (zm ! p) else None)"

definition zm_write :: "byte list \<Rightarrow> nat \<Rightarrow> byte \<Rightarrow> byte list option" where
  "zm_write zm p b = (if p < length zm then Some (zm[p := b]) else None)"

definition zm_memcpy :: "byte list \<Rightarrow> nat \<Rightarrow> byte list \<Rightarrow> nat \<Rightarrow> byte list option" where
  "zm_memcpy zm p src n =
     (if p + n \<le> length zm \<and> n \<le> length src
      then Some (take p zm @ take n src @ drop (p + n) zm) else None)"

definition zm_memmove :: "byte list \<Rightarrow> nat \<Rightarrow> nat \<Rightarrow> nat \<Rightarrow> byte list option" where
  "zm_memmove zm dst src n =
     (if dst + n \<le> length zm \<and> src + n \<le> length zm
      then Some (take dst zm @ take n (drop src zm) @ drop (dst + n) zm) else None)"

definition zm_memcmp :: "byte list \<Rightarrow> nat \<Rightarrow> byte list \<Rightarrow> nat \<Rightarrow> bool option" where
  "zm_memcmp zm p src n =
     (if p + n \<le> length zm \<and> n \<le> length src
      then Some (take n (drop p zm) = take n src) else None)"

text \<open>\<open>zipmapNew\<close>: two bytes, the entry count 0 and the end marker.\<close>

definition zipmapNew :: "byte list" where
  "zipmapNew = [0, ZIPMAP_END]"

text \<open>\<open>zipmapDecodeLength(p)\<close>: one byte below 254 is the length; otherwise the four
  bytes after it, least significant first.\<close>

definition zipmapDecodeLength :: "byte list \<Rightarrow> nat \<Rightarrow> uint option" where
  "zipmapDecodeLength zm p =
     (if length zm \<le> p then None
      else if (ucast (zm ! p) :: uint) < ZIPMAP_BIGLEN then Some (ucast (zm ! p))
      else if length zm \<le> p + 4 then None
      else Some (word_rcat [zm ! (p + 4), zm ! (p + 3), zm ! (p + 2), zm ! (p + 1)]))"

text \<open>\<open>zipmapEncodeLength(NULL, l)\<close> only returns the number of bytes of the encoding;
  \<open>zipmapEncodeLength(p, l)\<close> writes it at \<open>p\<close> and returns the block with that number.\<close>

definition zipmapEncodeLength_NULL :: "uint \<Rightarrow> uint" where
  "zipmapEncodeLength_NULL l = ZIPMAP_LEN_BYTES l"

definition zipmapEncodeLength :: "byte list \<Rightarrow> nat \<Rightarrow> uint \<Rightarrow> (byte list \<times> uint) option" where
  "zipmapEncodeLength zm p l =
     (if l < ZIPMAP_BIGLEN then
        (if p < length zm then Some (zm[p := ucast l], 1) else None)
      else
        (if p + 4 < length zm
         then Some (zm[p := ucast ZIPMAP_BIGLEN,
                       p + 1 := ucast l,
                       p + 2 := ucast (drop_bit 8 l),
                       p + 3 := ucast (drop_bit 16 l),
                       p + 4 := ucast (drop_bit 24 l)], 1 + 4)
         else None))"

text \<open>
  One round of the loop of \<open>zipmapLookupRaw\<close>, entered with \<open>*p != ZIPMAP_END\<close>:
  \<open>Inl p\<close> is the early \<open>return p\<close> (a match, and the caller passed no \<open>totlen\<close>),
  \<open>Inr (p', k')\<close> the values of \<open>p\<close> and \<open>k\<close> at the end of the round.  \<open>key\<close> is \<open>None\<close>
  for a null pointer, \<open>totlen\<close> tells whether the caller passed a non-null \<open>totlen\<close>.
\<close>

definition zipmapLookupRaw_round ::
  "byte list \<Rightarrow> byte list option \<Rightarrow> uint \<Rightarrow> bool \<Rightarrow> nat \<Rightarrow> nat option
     \<Rightarrow> (nat + nat \<times> nat option) option" where
  "zipmapLookupRaw_round zm key klen totlen p k = do {
     l \<leftarrow> zipmapDecodeLength zm p;
     let llen = zipmapEncodeLength_NULL l;
     hit \<leftarrow> (case key of
               None \<Rightarrow> Some False
             | Some ks \<Rightarrow>
                 if k = None \<and> l = klen then zm_memcmp zm (p + unat llen) ks (unat l)
                 else Some False);
     if hit \<and> \<not> totlen then Some (Inl p)
     else do {
       let k = (if hit then Some p else k);
       let p = p + unat (llen + l);
       l \<leftarrow> zipmapDecodeLength zm p;
       let p = p + unat (zipmapEncodeLength_NULL l);
       free \<leftarrow> zm_read zm p;
       let p = p + unat (l + 1 + ucast free);
       Some (Inr (p, k))
     }
   }"

lemma zipmapLookupRaw_round_advances:
  "zipmapLookupRaw_round zm key klen totlen p k = Some (Inr (p', k')) \<Longrightarrow> p < p'"
  by (auto simp: zipmapLookupRaw_round_def zipmapEncodeLength_NULL_def ZIPMAP_LEN_BYTES_def
        Let_def split: bind_splits if_splits option.splits)

function zipmapLookupRaw_loop ::
  "byte list \<Rightarrow> byte list option \<Rightarrow> uint \<Rightarrow> bool \<Rightarrow> nat \<Rightarrow> nat option
     \<Rightarrow> (nat + nat \<times> nat option) option" where
  "zipmapLookupRaw_loop zm key klen totlen p k =
     (if length zm \<le> p then None
      else if zm ! p = ZIPMAP_END then Some (Inr (p, k))
      else case zipmapLookupRaw_round zm key klen totlen p k of
             None \<Rightarrow> None
           | Some (Inl q) \<Rightarrow> Some (Inl q)
           | Some (Inr (p', k')) \<Rightarrow> zipmapLookupRaw_loop zm key klen totlen p' k')"
  by pat_completeness auto
termination
  by (relation "measure (\<lambda>(zm, key, klen, totlen, p, k). length zm - p)")
     (auto dest: zipmapLookupRaw_round_advances)

declare zipmapLookupRaw_loop.simps [simp del]

text \<open>\<open>zipmapLookupRaw(zm, key, klen, totlen)\<close>: the returned pointer (\<open>None\<close> for \<open>NULL\<close>)
  and the value stored into \<open>*totlen\<close>, if any.\<close>

definition zipmapLookupRaw ::
  "byte list \<Rightarrow> byte list option \<Rightarrow> uint \<Rightarrow> bool \<Rightarrow> (nat option \<times> uint option) option" where
  "zipmapLookupRaw zm key klen totlen =
     (case zipmapLookupRaw_loop zm key klen totlen 1 None of
        None \<Rightarrow> None
      | Some (Inl q) \<Rightarrow> Some (Some q, None)
      | Some (Inr (p, k)) \<Rightarrow> Some (k, if totlen then Some (of_nat p + 1) else None))"

definition zipmapRequiredLength :: "uint \<Rightarrow> uint \<Rightarrow> ulong" where
  "zipmapRequiredLength klen vlen =
     (let l = klen + vlen + 3;
          l = (if klen \<ge> ZIPMAP_BIGLEN then l + 4 else l);
          l = (if vlen \<ge> ZIPMAP_BIGLEN then l + 4 else l)
      in ucast l)"

definition zipmapRawKeyLength :: "byte list \<Rightarrow> nat \<Rightarrow> uint option" where
  "zipmapRawKeyLength zm p = do {
     l \<leftarrow> zipmapDecodeLength zm p;
     Some (zipmapEncodeLength_NULL l + l)
   }"

definition zipmapRawValueLength :: "byte list \<Rightarrow> nat \<Rightarrow> uint option" where
  "zipmapRawValueLength zm p = do {
     l \<leftarrow> zipmapDecodeLength zm p;
     let used = zipmapEncodeLength_NULL l;
     free \<leftarrow> zm_read zm (p + unat used);
     Some (used + (ucast free + 1 + l))
   }"

definition zipmapRawEntryLength :: "byte list \<Rightarrow> nat \<Rightarrow> uint option" where
  "zipmapRawEntryLength zm p = do {
     l \<leftarrow> zipmapRawKeyLength zm p;
     n \<leftarrow> zipmapRawValueLength zm (p + unat l);
     Some (l + n)
   }"

text \<open>\<open>zipmapResize(zm, n)\<close>: \<open>zrealloc\<close> keeps the bytes that fit in the new size and
  leaves the added ones uninitialised (\<open>junk\<close> is what they hold); then \<open>zm[n-1]\<close> is set
  to the end marker, which is a write before the block when \<open>n\<close> is 0.\<close>

definition zipmapResize :: "byte \<Rightarrow> byte list \<Rightarrow> uint \<Rightarrow> byte list option" where
  "zipmapResize junk zm n =
     (let zm = take (unat n) zm @ replicate (unat n - length zm) junk
      in if n = 0 then None else zm_write zm (unat n - 1) ZIPMAP_END)"

text \<open>
  \<open>zipmapSet\<close> in its three parts.  \<open>zipmapSet_room\<close> is the \<open>if (p == NULL) ... else ...\<close>
  after the lookup: it returns the block, \<open>p\<close>, \<open>zmlen\<close>, \<open>freelen\<close> and the value stored
  in \<open>*update\<close>.  \<open>zipmapSet_compact\<close> is the block from \<open>empty = freelen-reqlen\<close> on and
  returns the block, \<open>p\<close> and \<open>vempty\<close>.  \<open>zipmapSet_write\<close> writes the entry.
\<close>

definition zipmapSet_room ::
  "byte \<Rightarrow> byte list \<Rightarrow> byte list \<Rightarrow> uint \<Rightarrow> uint
     \<Rightarrow> (byte list \<times> nat \<times> uint \<times> uint \<times> int) option" where
  "zipmapSet_room junk zm key klen reqlen = do {
     (k, tl) \<leftarrow> zipmapLookupRaw zm (Some key) klen True;
     zmlen \<leftarrow> tl;
     case k of
       None \<Rightarrow> do {
         zm \<leftarrow> zipmapResize junk zm (zmlen + reqlen);
         p \<leftarrow> (if zmlen = 0 then None else Some (unat zmlen - 1));
         let zmlen = zmlen + reqlen;
         n \<leftarrow> zm_read zm 0;
         zm \<leftarrow> (if ucast n < ZIPMAP_BIGLEN then zm_write zm 0 (n + 1) else Some zm);
         Some (zm, p, zmlen, reqlen, 0)
       }
     | Some p \<Rightarrow> do {
         freelen \<leftarrow> zipmapRawEntryLength zm p;
         if freelen < reqlen then do {
           let offset = (of_nat p :: uint);
           zm \<leftarrow> zipmapResize junk zm (zmlen - freelen + reqlen);
           let p = unat offset;
           zm \<leftarrow> zm_memmove zm (p + unat reqlen) (p + unat freelen)
                   (unat (zmlen - (offset + freelen + 1)));
           Some (zm, p, zmlen - freelen + reqlen, reqlen, 1)
         } else Some (zm, p, zmlen, freelen, 1)
       }
   }"

definition zipmapSet_compact ::
  "byte \<Rightarrow> byte list \<Rightarrow> nat \<Rightarrow> uint \<Rightarrow> uint \<Rightarrow> uint \<Rightarrow> (byte list \<times> nat \<times> uint) option" where
  "zipmapSet_compact junk zm p zmlen freelen reqlen =
     (let empty = freelen - reqlen in
      if empty \<ge> ZIPMAP_VALUE_MAX_FREE then do {
        let offset = (of_nat p :: uint);
        zm \<leftarrow> zm_memmove zm (p + unat reqlen) (p + unat freelen)
                (unat (zmlen - (offset + freelen + 1)));
        let zmlen = zmlen - empty;
        zm \<leftarrow> zipmapResize junk zm zmlen;
        Some (zm, unat offset, 0)
      } else Some (zm, p, empty))"

definition zipmapSet_write ::
  "byte list \<Rightarrow> nat \<Rightarrow> byte list \<Rightarrow> uint \<Rightarrow> byte list \<Rightarrow> uint \<Rightarrow> uint \<Rightarrow> byte list option" where
  "zipmapSet_write zm p key klen val vlen vempty = do {
     (zm, n) \<leftarrow> zipmapEncodeLength zm p klen;
     let p = p + unat n;
     zm \<leftarrow> zm_memcpy zm p key (unat klen);
     let p = p + unat klen;
     (zm, n) \<leftarrow> zipmapEncodeLength zm p vlen;
     let p = p + unat n;
     zm \<leftarrow> zm_write zm p (ucast vempty);
     let p = p + 1;
     zm_memcpy zm p val (unat vlen)
   }"

definition zipmapSet ::
  "byte \<Rightarrow> byte list \<Rightarrow> byte list \<Rightarrow> uint \<Rightarrow> byte list \<Rightarrow> uint \<Rightarrow> (byte list \<times> int) option" where
  "zipmapSet junk zm key klen val vlen = do {
     let reqlen = (ucast (zipmapRequiredLength klen vlen) :: uint);
     (zm, p, zmlen, freelen, update) \<leftarrow> zipmapSet_room junk zm key klen reqlen;
     (zm, p, vempty) \<leftarrow> zipmapSet_compact junk zm p zmlen freelen reqlen;
     zm \<leftarrow> zipmapSet_write zm p key klen val vlen vempty;
     Some (zm, update)
   }"

text \<open>\<open>zipmapBlobLen(zm)\<close>: the serialized size, found by scanning to the end marker.\<close>

definition zipmapBlobLen :: "byte list \<Rightarrow> size_t option" where
  "zipmapBlobLen zm = do {
     (k, tl) \<leftarrow> zipmapLookupRaw zm None 0 True;
     totlen \<leftarrow> tl;
     Some (ucast totlen)
   }"

text \<open>
  A well-formed zipmap: the block is smaller than 4 GiB (sizes are \<open>unsigned int\<close>) and
  the scan over its entries stays inside the block and meets the end marker at the last
  byte, so that \<open>zipmapBlobLen\<close> is the size of the block.
\<close>

definition zipmap_wf :: "byte list \<Rightarrow> bool" where
  "zipmap_wf zm \<longleftrightarrow>
     length zm < 2 ^ 32 \<and> zipmapBlobLen zm = Some (of_nat (length zm))"

text \<open>
  The entry that \<open>zipmapSet\<close> touches: the entry of the key when the lookup finds it,
  the place of the old end marker when it does not.  Its residual slack is what the
  entry's room leaves over after the new key and value: the old entry's size minus the
  required size when the key has an entry that is large enough, nothing when the entry
  is added or has to grow.  The free byte of an entry at \<open>p\<close> follows the two encoded
  lengths and the key.
\<close>

definition zipmap_touched_entry :: "byte list \<Rightarrow> byte list \<Rightarrow> uint \<Rightarrow> nat option" where
  "zipmap_touched_entry zm key klen = do {
     (k, tl) \<leftarrow> zipmapLookupRaw zm (Some key) klen True;
     zmlen \<leftarrow> tl;
     case k of None \<Rightarrow> Some (unat zmlen - 1) | Some p \<Rightarrow> Some p
   }"

definition zipmap_residual_slack :: "byte list \<Rightarrow> byte list \<Rightarrow> uint \<Rightarrow> uint \<Rightarrow> uint option" where
  "zipmap_residual_slack zm key klen vlen = do {
     (k, tl) \<leftarrow> zipmapLookupRaw zm (Some key) klen True;
     case k of
       None \<Rightarrow> Some 0
     | Some p \<Rightarrow> do {
         freelen \<leftarrow> zipmapRawEntryLength zm p;
         let reqlen = (ucast (zipmapRequiredLength klen vlen) :: uint);
         Some (if freelen < reqlen then 0 else freelen - reqlen)
       }
   }"

definition zipmap_free_offset :: "nat \<Rightarrow> uint \<Rightarrow> uint \<Rightarrow> nat" where
  "zipmap_free_offset p klen vlen =
     p + unat (ZIPMAP_LEN_BYTES klen) + unat klen + unat (ZIPMAP_LEN_BYTES vlen)"

text \<open>The strings of the example in the header comment of \<open>zipmap.c\<close>, as bytes.\<close>

definition bytes_of :: "string \<Rightarrow> byte list" where
  "bytes_of s = map (\<lambda>c. of_nat (of_char c)) s"

section \<open>Verification: SDS\<close>

lemma word_bit_below:
  fixes x :: "'a::len word"
  assumes "x < 2 ^ n" and "bit x m"
  shows "m < n"
proof -
  have "take_bit n x = x"
    using less_mask_eq[OF assms(1)] by (simp add: take_bit_eq_mask)
  then have "bit (take_bit n x) m" using assms(2) by simp
  then show ?thesis by (simp add: bit_take_bit_iff)
qed

lemma ucast_down_up8:
  fixes v :: "64 word"
  assumes "v < 256"
  shows "(ucast (ucast v :: 8 word) :: 64 word) = v"
proof (rule bit_word_eqI)
  fix m assume "m < LENGTH(64)"
  have "bit v m \<Longrightarrow> m < 8" using word_bit_below[of v 8 m] assms by simp
  then show "bit (ucast (ucast v :: 8 word) :: 64 word) m = bit v m"
    by (auto simp: bit_simps)
qed

lemma ucast_down_up16:
  fixes v :: "64 word"
  assumes "v < 65536"
  shows "(ucast (ucast v :: 16 word) :: 64 word) = v"
proof (rule bit_word_eqI)
  fix m assume "m < LENGTH(64)"
  have "bit v m \<Longrightarrow> m < 16" using word_bit_below[of v 16 m] assms by simp
  then show "bit (ucast (ucast v :: 16 word) :: 64 word) m = bit v m"
    by (auto simp: bit_simps)
qed

lemma ucast_down_up32:
  fixes v :: "64 word"
  assumes "v < 4294967296"
  shows "(ucast (ucast v :: 32 word) :: 64 word) = v"
proof (rule bit_word_eqI)
  fix m assume "m < LENGTH(64)"
  have "bit v m \<Longrightarrow> m < 32" using word_bit_below[of v 32 m] assms by simp
  then show "bit (ucast (ucast v :: 32 word) :: 64 word) m = bit v m"
    by (auto simp: bit_simps)
qed

lemma sdsField_small:
  "v < 256 \<Longrightarrow> sdsField SDS_TYPE_8 v = v"
  "v < 65536 \<Longrightarrow> sdsField SDS_TYPE_16 v = v"
  "v < 4294967296 \<Longrightarrow> sdsField SDS_TYPE_32 v = v"
  "sdsField SDS_TYPE_64 v = v"
  by (simp_all add: sdsField_def SDS_TYPE_defs ucast_down_up8 ucast_down_up16 ucast_down_up32)

lemma type5_flags_type:
  fixes n :: "64 word"
  shows "(ucast (push_bit 3 n) :: 8 word) AND 7 = 0"
proof -
  have m: "(7 :: 8 word) = mask 3" by (simp add: mask_eq_exp_minus_1)
  show ?thesis
    unfolding m by (rule bit_word_eqI) (auto simp: bit_simps)
qed

lemma type5_flags_len:
  fixes n :: "64 word"
  assumes "n < 32"
  shows "(ucast (drop_bit 3 (ucast (push_bit 3 n) :: 8 word)) :: 64 word) = n"
proof (rule bit_word_eqI)
  fix m assume "m < LENGTH(64)"
  have "bit n m \<Longrightarrow> m < 5" using word_bit_below[of n 5 m] assms by simp
  then show "bit (ucast (drop_bit 3 (ucast (push_bit 3 n) :: 8 word)) :: 64 word) m = bit n m"
    by (auto simp: bit_simps)
qed

lemma sdsHdrSize_le: "unat (sdsHdrSize t) \<le> 17"
  by (simp add: sdsHdrSize_def Let_def)

lemma sds_block_room:
  assumes "unat n + 18 < 2 ^ 64"
  shows "unat (sdsHdrSize t + n + 1) = unat (sdsHdrSize t) + unat n + 1"
proof -
  have b: "unat n < 18446744073709551598" using assms by simp
  have lt: "unat (sdsHdrSize t) + unat n + 1 < 18446744073709551616"
    using b sdsHdrSize_le[of t] by linarith
  have "unat (sdsHdrSize t + n + 1) = (unat (sdsHdrSize t) + unat n + 1) mod 2 ^ 64"
    by (simp add: unat_word_ariths mod_Suc_eq)
  also have "\<dots> = unat (sdsHdrSize t) + unat n + 1"
    using lt by simp
  finally show ?thesis .
qed

lemma sdsField_small_num:
  "v < 256 \<Longrightarrow> sdsField 1 v = v"
  "v < 65536 \<Longrightarrow> sdsField 2 v = v"
  "v < 4294967296 \<Longrightarrow> sdsField 3 v = v"
  "sdsField 4 v = v"
  using sdsField_small[of v] by (simp_all add: SDS_TYPE_defs)

subsection \<open>Creation\<close>

lemma sdsnewlen_Init:
  assumes L: "length bytes = unat initlen" and B: "unat initlen + 18 < 2 ^ 64"
  shows "sdsnewlen True fresh (Init bytes) initlen =
     Inr (if initlen \<noteq> 0 \<and> initlen < 32
          then \<lparr>flags = SDS_TYPE_5 OR ucast (push_bit SDS_TYPE_BITS initlen), len = 0, alloc = 0,
                buf = bytes @ [0]\<rparr>
          else \<lparr>flags = (if initlen = 0 then SDS_TYPE_8 else sdsReqType initlen), len = initlen, alloc = initlen,
                buf = bytes @ [0]\<rparr>)"
  using L sds_block_room[OF B]
  apply (simp add: sdsnewlen_def Let_def)
  apply (auto simp: sdsReqType_def sdsField_small_num SDS_TYPE_defs)
  done

text \<open>
  Claim C6. For an input byte sequence of length \<open>initlen\<close> (one that fits the address
  space with its header and terminator) and a successful allocation, \<open>sdsnewlen\<close> returns
  a string whose variant is the smallest one whose maximum length holds \<open>initlen\<close>
  (type 5 below 32, type 8 below 256, type 16 below \<open>2^16\<close>, type 32 below \<open>2^32\<close>,
  type 64 above), except that the empty string gets type 8; its length and its capacity
  are \<open>initlen\<close>, its payload is the input, and the byte at \<open>payload[initlen]\<close> is NUL.
\<close>

theorem sdsnewlen_variant_and_fields:
  assumes L: "length bytes = unat initlen" and B: "unat initlen + 18 < 2 ^ 64"
  shows "\<exists>s. sdsnewlen True fresh (Init bytes) initlen = Inr s
     \<and> flags s AND SDS_TYPE_MASK =
         (if initlen = 0 then SDS_TYPE_8
          else if initlen < 32 then SDS_TYPE_5
          else if initlen < 256 then SDS_TYPE_8
          else if initlen < 65536 then SDS_TYPE_16
          else if initlen < 4294967296 then SDS_TYPE_32
          else SDS_TYPE_64)
     \<and> initlen \<le> sdsTypeMaxLen (flags s AND SDS_TYPE_MASK)
     \<and> (initlen = 0 \<or> flags s AND SDS_TYPE_MASK = SDS_TYPE_5
          \<or> sdsTypeMaxLen ((flags s AND SDS_TYPE_MASK) - 1) < initlen)
     \<and> sdslen s = initlen
     \<and> sdsalloc s = initlen
     \<and> buf s = bytes @ [0]
     \<and> take (unat initlen) (buf s) = bytes
     \<and> buf s ! unat initlen = 0"
proof -
  consider (z) "initlen = 0"
    | (a) "initlen \<noteq> 0" "initlen < 32"
    | (b) "\<not> initlen < 32" "initlen < 256"
    | (c) "\<not> initlen < 256" "initlen < 65536"
    | (d) "\<not> initlen < 65536" "initlen < 4294967296"
    | (e) "\<not> initlen < 4294967296"
    by blast
  then show ?thesis
  proof cases
    case z
    then show ?thesis
      unfolding sdsnewlen_Init[OF L B] using L
      by (simp add: sdslen_def sdsalloc_def SDS_TYPE_defs sdsTypeMaxLen_def)
  next
    case a
    have le: "initlen \<le> 31"
      using a(2) by (simp add: word_less_nat_alt word_le_nat_alt)
    show ?thesis
      unfolding sdsnewlen_Init[OF L B]
      using a le type5_flags_type[of initlen] type5_flags_len[OF a(2)] L
      by (simp add: sdslen_def sdsalloc_def SDS_TYPE_5_LEN_def SDS_TYPE_defs sdsTypeMaxLen_def
          nth_append)
  next
    case b
    have f: "initlen \<noteq> 0" "initlen \<le> 255" "31 < initlen"
      using b by (auto simp: word_less_nat_alt word_le_nat_alt)
    show ?thesis
      unfolding sdsnewlen_Init[OF L B] using L b f
      by (simp add: sdslen_def sdsalloc_def sdsReqType_def SDS_TYPE_defs sdsTypeMaxLen_def nth_append)
  next
    case c
    have f: "initlen \<noteq> 0" "\<not> initlen < 32" "initlen \<le> 65535" "255 < initlen"
      using c by (auto simp: word_less_nat_alt word_le_nat_alt)
    show ?thesis
      unfolding sdsnewlen_Init[OF L B] using L c f
      by (simp add: sdslen_def sdsalloc_def sdsReqType_def SDS_TYPE_defs sdsTypeMaxLen_def nth_append)
  next
    case d
    have f: "initlen \<noteq> 0" "\<not> initlen < 32" "\<not> initlen < 256" "initlen \<le> 4294967295" "65535 < initlen"
      using d by (auto simp: word_less_nat_alt word_le_nat_alt)
    show ?thesis
      unfolding sdsnewlen_Init[OF L B] using L d f
      by (simp add: sdslen_def sdsalloc_def sdsReqType_def SDS_TYPE_defs sdsTypeMaxLen_def nth_append)
  next
    case e
    have f: "initlen \<noteq> 0" "\<not> initlen < 32" "\<not> initlen < 256" "\<not> initlen < 65536" "4294967295 < initlen"
      using e by (auto simp: word_less_nat_alt word_le_nat_alt)
    show ?thesis
      unfolding sdsnewlen_Init[OF L B] using L e f
      by (simp add: sdslen_def sdsalloc_def sdsReqType_def SDS_TYPE_defs sdsTypeMaxLen_def nth_append)
  qed
qed

theorem sdsnewlen_variant_and_fields_witness:
  "length [102, 111, 111 :: byte] = unat (3 :: size_t) \<and> unat (3 :: size_t) + 18 < 2 ^ 64
   \<and> sdsnewlen True 0 (Init [102, 111, 111]) 3
        = Inr \<lparr>flags = 24, len = 0, alloc = 0, buf = [102, 111, 111, 0]\<rparr>
   \<and> sdslen \<lparr>flags = 24, len = 0, alloc = 0, buf = [102, 111, 111, 0]\<rparr> = 3"
  using sdsnewlen_variant_and_fields[of "[102, 111, 111]" 3 0]
  by (auto simp: sdsalloc_def sdslen_def SDS_TYPE_5_LEN_def SDS_TYPE_defs sdsnewlen_def sdsReqType_def sdsHdrSize_def)

subsection \<open>Growth\<close>

lemma sdsGrowType_cases:
  "sdsGrowType n = (if n < 256 then SDS_TYPE_8 else if n < 65536 then SDS_TYPE_16
      else if n < 4294967296 then SDS_TYPE_32 else SDS_TYPE_64)"
  by (auto simp: sdsGrowType_def sdsReqType_def SDS_TYPE_defs word_less_nat_alt)

lemma sdsGrowType_in:
  "sdsGrowType n = SDS_TYPE_8 \<or> sdsGrowType n = SDS_TYPE_16 \<or> sdsGrowType n = SDS_TYPE_32
     \<or> sdsGrowType n = SDS_TYPE_64"
  by (simp add: sdsGrowType_cases)

lemma sdsGrowType_mask: "sdsGrowType n AND SDS_TYPE_MASK = sdsGrowType n"
  by (simp add: sdsGrowType_cases SDS_TYPE_defs)

lemma sdsGrowType_not5: "sdsGrowType n \<noteq> SDS_TYPE_5"
  by (simp add: sdsGrowType_cases SDS_TYPE_defs)

lemma sdsField_le:
  assumes "v \<le> n"
  shows "sdsField (sdsGrowType n) v = v"
proof -
  have "n < 256 \<Longrightarrow> v < 256" "n < 65536 \<Longrightarrow> v < 65536" "n < 4294967296 \<Longrightarrow> v < 4294967296"
    using assms by (auto simp: word_less_nat_alt word_le_nat_alt)
  then show ?thesis
    by (auto simp: sdsGrowType_cases sdsField_small)
qed

lemma take_bit_32_64_diff:
  "take_bit 32 (take_bit 64 a - take_bit 64 b) = take_bit 32 (a - b)" for a b :: int
proof -
  have e1: "take_bit 32 (take_bit 64 x) = take_bit 32 x" for x :: int
    by simp
  have e2: "take_bit 64 (take_bit 64 a - take_bit 64 b) = take_bit 64 (a - b)"
    by (rule take_bit_diff)
  have "take_bit 32 (take_bit 64 a - take_bit 64 b)
          = take_bit 32 (take_bit 64 (take_bit 64 a - take_bit 64 b))"
    by (rule e1[symmetric])
  also have "\<dots> = take_bit 32 (take_bit 64 (a - b))"
    by (simp only: e2)
  also have "\<dots> = take_bit 32 (a - b)"
    by (rule e1)
  finally show ?thesis .
qed

lemma ucast32_diff:
  fixes a b :: "64 word"
  shows "(ucast a :: 32 word) - ucast b = ucast (a - b)"
  by transfer (simp add: take_bit_32_64_diff)

text \<open>On a header whose fields fit their width and whose length is within its capacity,
  \<open>sdsavail\<close> is the capacity minus the length.\<close>

lemma sdsavail_capacity:
  assumes le: "sdslen s \<le> sdsalloc s"
    and fit: "sdsalloc s \<le> sdsTypeMaxLen (flags s AND SDS_TYPE_MASK)"
  shows "sdsavail s = sdsalloc s - sdslen s"
    and "unat (sdsavail s) = unat (sdsalloc s) - unat (sdslen s)"
proof -
  show a: "sdsavail s = sdsalloc s - sdslen s"
  proof (cases "flags s AND SDS_TYPE_MASK = SDS_TYPE_32")
    case True
    with fit have "alloc s \<le> 4294967295"
      by (simp add: sdsalloc_def sdsTypeMaxLen_def SDS_TYPE_defs Let_def)
    moreover from True le have "len s \<le> alloc s"
      by (simp add: sdsalloc_def sdslen_def SDS_TYPE_defs Let_def)
    ultimately have "alloc s - len s < 4294967296"
      by (simp add: word_le_nat_alt word_less_nat_alt unat_sub)
    hence "(ucast (ucast (alloc s - len s) :: 32 word) :: 64 word) = alloc s - len s"
      by (rule ucast_down_up32)
    with True show ?thesis
      by (simp add: sdsavail_def sdsalloc_def sdslen_def SDS_TYPE_defs Let_def ucast32_diff)
  next
    case False
    then show ?thesis
      by (simp add: sdsavail_def sdsalloc_def sdslen_def Let_def)
  qed
  show "unat (sdsavail s) = unat (sdsalloc s) - unat (sdslen s)"
    unfolding a using le by (rule unat_sub)
qed

text \<open>On a type 8 header that records more bytes in use than allocated, the difference
  taken in \<open>int\<close> is negative and \<open>sdsavail\<close> is \<open>2^64 - 30\<close>: \<open>sdsMakeRoomFor\<close>
  returns the handle as it is.\<close>

lemma sdsavail_negative_difference:
  "sdsavail \<lparr>flags = 1, len = 40, alloc = 10, buf = bs\<rparr> = 18446744073709551586"
  "sdsMakeRoomFor ok fresh \<lparr>flags = 1, len = 40, alloc = 10, buf = bs\<rparr> 227
     = Inr \<lparr>flags = 1, len = 40, alloc = 10, buf = bs\<rparr>"
  by (simp_all add: sdsavail_def sdsMakeRoomFor_def SDS_TYPE_defs Let_def)

lemma sdsGrowType_holds: "n \<le> sdsTypeMaxLen (sdsGrowType n)"
proof -
  have "n < 256 \<Longrightarrow> n \<le> 255" "n < 65536 \<Longrightarrow> n \<le> 65535"
    "n < 4294967296 \<Longrightarrow> n \<le> 4294967295"
    by (simp_all add: word_le_nat_alt word_less_nat_alt)
  then show ?thesis
    by (simp add: sdsGrowType_cases sdsTypeMaxLen_def SDS_TYPE_defs)
qed

lemma sdsMakeRoomFor_Inr:
  assumes "sdsavail s < addlen" and "sdsMakeRoomFor ok fresh s addlen = Inr s'"
  shows "flags s' AND SDS_TYPE_MASK = sdsGrowType (sdsGrowLen s addlen)"
    and "alloc s' = sdsGrowLen s addlen"
  using assms sdsGrowType_in[of "sdsGrowLen s addlen"] sdsGrowType_mask[of "sdsGrowLen s addlen"]
     sdsField_le[of "sdsGrowLen s addlen" "sdsGrowLen s addlen"] sdsGrowType_not5[of "sdsGrowLen s addlen"]
  unfolding sdsMakeRoomFor_def sdsGrowLen_def sdsGrowType_def Let_def
  by (auto simp: not_le sdssetalloc_def sdssetlen_def Let_def split: if_splits)


lemma unat_sdsGrowLen:
  assumes "unat (sdslen s) + unat addlen + 2 ^ 20 + 18 < 2 ^ 64"
  shows "unat (sdsGrowLen s addlen) =
     (if unat (sdslen s) + unat addlen < 2 ^ 20 then 2 * (unat (sdslen s) + unat addlen)
      else unat (sdslen s) + unat addlen + 2 ^ 20)"
proof -
  have b: "unat (sdslen s) + unat addlen < 18446744073708503022" using assms by simp
  have t: "unat (sdslen s + addlen) = unat (sdslen s) + unat addlen"
    using b by (intro unat_add_lem[THEN iffD1]) simp
  show ?thesis
  proof (cases "sdslen s + addlen < SDS_MAX_PREALLOC")
    case True
    then have lt: "unat (sdslen s) + unat addlen < 1048576"
      using t by (simp add: word_less_nat_alt SDS_MAX_PREALLOC_def)
    have "unat ((sdslen s + addlen) * 2) = unat (sdslen s + addlen) * unat (2 :: 64 word)"
      using lt t by (intro unat_mult_lem[THEN iffD1]) simp
    then show ?thesis using True lt t by (simp add: sdsGrowLen_def)
  next
    case False
    then have ge: "\<not> unat (sdslen s) + unat addlen < 1048576"
      using t by (simp add: word_less_nat_alt SDS_MAX_PREALLOC_def)
    have "unat (sdslen s + addlen + SDS_MAX_PREALLOC) = unat (sdslen s + addlen) + unat SDS_MAX_PREALLOC"
      using b t by (intro unat_add_lem[THEN iffD1]) (simp add: SDS_MAX_PREALLOC_def)
    then show ?thesis using False ge t by (simp add: sdsGrowLen_def SDS_MAX_PREALLOC_def)
  qed
qed


lemma sdsMakeRoomFor_grow:
  assumes "sdsavail s < addlen"
  shows "sdsMakeRoomFor ok fresh s addlen =
     (if flags s AND SDS_TYPE_MASK = sdsGrowType (sdsGrowLen s addlen) then
        (if \<not> ok then Inl NULL_returned
         else if unat (sdsHdrSize (sdsGrowType (sdsGrowLen s addlen)) + sdsGrowLen s addlen + 1)
                 < unat (sdsHdrSize (sdsGrowType (sdsGrowLen s addlen))) then Inl Undefined
         else Inr (sdssetalloc
               (s\<lparr>buf := take (unat (sdsHdrSize (sdsGrowType (sdsGrowLen s addlen)) + sdsGrowLen s addlen + 1)
                                 - unat (sdsHdrSize (sdsGrowType (sdsGrowLen s addlen)))) (buf s)
                     @ replicate (unat (sdsHdrSize (sdsGrowType (sdsGrowLen s addlen)) + sdsGrowLen s addlen + 1)
                                 - unat (sdsHdrSize (sdsGrowType (sdsGrowLen s addlen))) - length (buf s)) fresh\<rparr>)
               (sdsGrowLen s addlen)))
      else
        (if \<not> ok then Inl NULL_returned
         else if unat (sdsHdrSize (sdsGrowType (sdsGrowLen s addlen)) + sdsGrowLen s addlen + 1)
                 < unat (sdsHdrSize (sdsGrowType (sdsGrowLen s addlen)))
                 \<or> length (buf s) < unat (sdslen s + 1)
                 \<or> unat (sdsHdrSize (sdsGrowType (sdsGrowLen s addlen)) + sdsGrowLen s addlen + 1)
                                 - unat (sdsHdrSize (sdsGrowType (sdsGrowLen s addlen))) < unat (sdslen s + 1)
           then Inl Undefined
         else Inr (sdssetalloc
               (sdssetlen
                  \<lparr>flags = sdsGrowType (sdsGrowLen s addlen), len = 0, alloc = 0,
                   buf = take (unat (sdslen s + 1)) (buf s)
                         @ replicate (unat (sdsHdrSize (sdsGrowType (sdsGrowLen s addlen)) + sdsGrowLen s addlen + 1)
                                 - unat (sdsHdrSize (sdsGrowType (sdsGrowLen s addlen))) - unat (sdslen s + 1)) fresh\<rparr>
                  (sdslen s))
               (sdsGrowLen s addlen))))"
proof -
  have "\<not> addlen \<le> sdsavail s" using assms by simp
  then show ?thesis
    unfolding sdsMakeRoomFor_def sdsGrowLen_def sdsGrowType_def Let_def
    by (simp only: if_False)
qed

lemma sdsMakeRoomFor_total:
  assumes av: "sdsavail s < addlen"
    and nul: "unat (sdslen s) < length (buf s)"
    and nov: "unat (sdslen s) + unat addlen + 2 ^ 20 + 18 < 2 ^ 64"
  shows "\<exists>s'. sdsMakeRoomFor True fresh s addlen = Inr s'
     \<and> sdslen s' = sdslen s
     \<and> addlen \<le> sdsavail s'
     \<and> length (buf s') = unat (sdsalloc s') + 1
     \<and> take (unat (sdslen s) + 1) (buf s') = take (unat (sdslen s) + 1) (buf s)
     \<and> sdsalloc s' = sdsGrowLen s addlen"
proof -
  let ?n = "sdsGrowLen s addlen"
  let ?t = "sdsGrowType ?n"
  have u: "unat ?n = (if unat (sdslen s) + unat addlen < 2 ^ 20 then 2 * (unat (sdslen s) + unat addlen)
      else unat (sdslen s) + unat addlen + 2 ^ 20)"
    by (rule unat_sdsGrowLen[OF nov])
  have n18: "unat ?n + 18 < 2 ^ 64" using u nov by (simp split: if_splits)
  have room: "unat (sdsHdrSize ?t + ?n + 1) = unat (sdsHdrSize ?t) + unat ?n + 1"
    by (rule sds_block_room[OF n18])
  have len_le: "sdslen s \<le> ?n" using u by (simp add: word_le_nat_alt split: if_splits)
  have "unat (sdslen s) + unat (1 :: 64 word) < 2 ^ LENGTH(64)" using nov by simp
  then have l1: "unat (sdslen s + 1) = unat (sdslen s) + 1"
    using unat_add_lem[of "sdslen s" 1] by simp
  have sub: "unat (?n - sdslen s) = unat ?n - unat (sdslen s)"
    using len_le by (simp add: unat_sub)
  have add_le: "addlen \<le> ?n - sdslen s"
    using u sub by (simp add: word_le_nat_alt split: if_splits)
  have f1: "sdsField ?t (sdslen s) = sdslen s" by (rule sdsField_le[OF len_le])
  have f2: "sdsField ?t ?n = ?n" by (rule sdsField_le) simp
  have f3: "sdsField ?t (?n - sdslen s) = ?n - sdslen s"
    by (rule sdsField_le) (use sub in \<open>simp add: word_le_nat_alt\<close>)
  have lenle: "unat (sdslen s) \<le> unat ?n" using len_le by (simp add: word_le_nat_alt)
  have core: "\<exists>s'. sdsMakeRoomFor True fresh s addlen = Inr s'
     \<and> sdslen s' = sdslen s
     \<and> flags s' AND SDS_TYPE_MASK = ?t
     \<and> length (buf s') = unat (sdsalloc s') + 1
     \<and> take (unat (sdslen s) + 1) (buf s') = take (unat (sdslen s) + 1) (buf s)
     \<and> sdsalloc s' = ?n"
  proof (cases "flags s AND SDS_TYPE_MASK = ?t")
    case True
    have lens: "sdslen s = len s"
      using True sdsGrowType_in[of ?n] sdsGrowType_not5[of ?n] by (auto simp: sdslen_def Let_def)
    show ?thesis
      unfolding sdsMakeRoomFor_grow[OF av] room
      using True sdsGrowType_in[of ?n] sdsGrowType_not5[of ?n] f2 lens lenle nul
      by (simp add: sdssetalloc_def sdslen_def sdsalloc_def Let_def)
  next
    case False
    show ?thesis 
      unfolding sdsMakeRoomFor_grow[OF av] room
      using False sdsGrowType_in[of ?n] sdsGrowType_not5[of ?n] sdsGrowType_mask[of ?n] f1 f2 lenle nul l1
      by (simp add: sdssetalloc_def sdssetlen_def sdslen_def sdsalloc_def Let_def)
  qed
  then obtain s' where r: "sdsMakeRoomFor True fresh s addlen = Inr s'"
    and l: "sdslen s' = sdslen s" and t: "flags s' AND SDS_TYPE_MASK = ?t"
    and b: "length (buf s') = unat (sdsalloc s') + 1"
    and k: "take (unat (sdslen s) + 1) (buf s') = take (unat (sdslen s) + 1) (buf s)"
    and a: "sdsalloc s' = ?n"
    by blast
  have "sdslen s' \<le> sdsalloc s'" using l a len_le by simp
  moreover have "sdsalloc s' \<le> sdsTypeMaxLen (flags s' AND SDS_TYPE_MASK)"
    unfolding t a by (rule sdsGrowType_holds)
  ultimately have "sdsavail s' = sdsalloc s' - sdslen s'"
    by (rule sdsavail_capacity(1))
  with add_le l a have "addlen \<le> sdsavail s'" by simp
  with r l b k a show ?thesis by blast
qed


text \<open>
  Claim C5. What is available is \<open>sdsavail\<close>, the capacity minus the length on every
  header that is in order. \<open>sdsMakeRoomFor\<close> returns the handle unchanged when \<open>addlen\<close>
  bytes are available. Otherwise every handle it returns has capacity \<open>2 * target\<close> when
  \<open>target = length + addlen\<close> is below 1 MiB and \<open>target + 1 MiB\<close> otherwise (the
  arithmetic of \<open>size_t\<close>), and its variant is the smallest one holding that capacity,
  type 8 standing in for type 5, which is never chosen. For a handle whose payload is in
  its buffer, when the sums do not overflow and the allocation succeeds, a handle is
  returned: its header is in order, the length and the payload are kept, the capacity is
  the stated number, and \<open>addlen\<close> bytes are available.
\<close>

theorem sdsMakeRoomFor_growth_policy:
  "(sds_header_ok s \<longrightarrow> unat (sdsavail s) = unat (sdsalloc s) - unat (sdslen s))
   \<and> (addlen \<le> sdsavail s \<longrightarrow> sdsMakeRoomFor ok fresh s addlen = Inr s)
   \<and> (sds_header_ok s \<and> unat addlen \<le> unat (sdsalloc s) - unat (sdslen s) \<longrightarrow>
         sdsMakeRoomFor ok fresh s addlen = Inr s)
   \<and> ((sdsavail s < addlen
         \<or> sds_header_ok s \<and> unat (sdsalloc s) - unat (sdslen s) < unat addlen)
        \<and> sdsMakeRoomFor ok fresh s addlen = Inr s' \<longrightarrow>
         sdsalloc s' = sdsGrowLen s addlen
       \<and> flags s' AND SDS_TYPE_MASK =
           (if sdsGrowLen s addlen < 256 then SDS_TYPE_8
            else if sdsGrowLen s addlen < 65536 then SDS_TYPE_16
            else if sdsGrowLen s addlen < 4294967296 then SDS_TYPE_32
            else SDS_TYPE_64)
       \<and> flags s' AND SDS_TYPE_MASK =
           (if sdsReqType (sdsGrowLen s addlen) = SDS_TYPE_5 then SDS_TYPE_8
            else sdsReqType (sdsGrowLen s addlen))
       \<and> flags s' AND SDS_TYPE_MASK \<noteq> SDS_TYPE_5)
   \<and> (sdsavail s < addlen \<and> unat (sdslen s) < length (buf s)
        \<and> unat (sdslen s) + unat addlen + 2 ^ 20 + 18 < 2 ^ 64 \<longrightarrow>
         (\<exists>r. sdsMakeRoomFor True fresh s addlen = Inr r
            \<and> sdslen r = sdslen s
            \<and> unat (sdsalloc r) =
                (if unat (sdslen s) + unat addlen < 2 ^ 20
                 then 2 * (unat (sdslen s) + unat addlen)
                 else unat (sdslen s) + unat addlen + 2 ^ 20)
            \<and> addlen \<le> sdsavail r
            \<and> sds_header_ok r
            \<and> unat (sdsavail r) = unat (sdsalloc r) - unat (sdslen r)
            \<and> length (buf r) = unat (sdsalloc r) + 1
            \<and> take (unat (sdslen s) + 1) (buf r) = take (unat (sdslen s) + 1) (buf s)))"
proof (intro conjI impI)
  assume "sds_header_ok s"
  then show "unat (sdsavail s) = unat (sdsalloc s) - unat (sdslen s)"
    unfolding sds_header_ok_def by (intro sdsavail_capacity(2)) simp_all
next
  assume "addlen \<le> sdsavail s"
  then show "sdsMakeRoomFor ok fresh s addlen = Inr s"
    by (simp add: sdsMakeRoomFor_def Let_def)
next
  assume a: "sds_header_ok s \<and> unat addlen \<le> unat (sdsalloc s) - unat (sdslen s)"
  then have "unat (sdsavail s) = unat (sdsalloc s) - unat (sdslen s)"
    unfolding sds_header_ok_def by (intro sdsavail_capacity(2)) simp_all
  with a have "addlen \<le> sdsavail s" by (simp add: word_le_nat_alt)
  then show "sdsMakeRoomFor ok fresh s addlen = Inr s"
    by (simp add: sdsMakeRoomFor_def Let_def)
next
  assume a: "(sdsavail s < addlen
         \<or> sds_header_ok s \<and> unat (sdsalloc s) - unat (sdslen s) < unat addlen)
        \<and> sdsMakeRoomFor ok fresh s addlen = Inr s'"
  have av: "sdsavail s < addlen"
  proof (cases "sdsavail s < addlen")
    case True
    then show ?thesis .
  next
    case False
    with a have h: "sds_header_ok s" and lt: "unat (sdsalloc s) - unat (sdslen s) < unat addlen"
      by simp_all
    from h have "unat (sdsavail s) = unat (sdsalloc s) - unat (sdslen s)"
      unfolding sds_header_ok_def by (intro sdsavail_capacity(2)) simp_all
    with lt show ?thesis by (simp add: word_less_nat_alt)
  qed
  from a have r: "sdsMakeRoomFor ok fresh s addlen = Inr s'" by simp
  have m: "flags s' AND SDS_TYPE_MASK = sdsGrowType (sdsGrowLen s addlen)"
    and al: "alloc s' = sdsGrowLen s addlen"
    using sdsMakeRoomFor_Inr[OF av r] by simp_all
  show "sdsalloc s' = sdsGrowLen s addlen"
    using m al sdsGrowType_in[of "sdsGrowLen s addlen"] sdsGrowType_not5[of "sdsGrowLen s addlen"]
    by (auto simp: sdsalloc_def Let_def)
  show "flags s' AND SDS_TYPE_MASK =
           (if sdsGrowLen s addlen < 256 then SDS_TYPE_8
            else if sdsGrowLen s addlen < 65536 then SDS_TYPE_16
            else if sdsGrowLen s addlen < 4294967296 then SDS_TYPE_32
            else SDS_TYPE_64)"
    using m by (simp add: sdsGrowType_cases)
  show "flags s' AND SDS_TYPE_MASK =
           (if sdsReqType (sdsGrowLen s addlen) = SDS_TYPE_5 then SDS_TYPE_8
            else sdsReqType (sdsGrowLen s addlen))"
    using m by (simp add: sdsGrowType_def)
  show "flags s' AND SDS_TYPE_MASK \<noteq> SDS_TYPE_5"
    using m sdsGrowType_not5[of "sdsGrowLen s addlen"] by simp
next
  assume b: "sdsavail s < addlen \<and> unat (sdslen s) < length (buf s)
        \<and> unat (sdslen s) + unat addlen + 2 ^ 20 + 18 < 2 ^ 64"
  then have av: "sdsavail s < addlen" and nul: "unat (sdslen s) < length (buf s)"
    and nov: "unat (sdslen s) + unat addlen + 2 ^ 20 + 18 < 2 ^ 64" by simp_all
  from sdsMakeRoomFor_total[OF av nul nov, of fresh] obtain r where
    r: "sdsMakeRoomFor True fresh s addlen = Inr r" and l: "sdslen r = sdslen s"
    and ad: "addlen \<le> sdsavail r" and bl: "length (buf r) = unat (sdsalloc r) + 1"
    and tk: "take (unat (sdslen s) + 1) (buf r) = take (unat (sdslen s) + 1) (buf s)"
    and al: "sdsalloc r = sdsGrowLen s addlen"
    by blast
  note u = unat_sdsGrowLen[OF nov]
  have le: "sdslen r \<le> sdsalloc r"
    unfolding l al using u by (simp add: word_le_nat_alt split: if_splits)
  from sdsMakeRoomFor_Inr(1)[OF av r]
  have "sdsalloc r \<le> sdsTypeMaxLen (flags r AND SDS_TYPE_MASK)"
    unfolding al by (simp add: sdsGrowType_holds)
  with le have h: "sds_header_ok r" by (simp add: sds_header_ok_def)
  then have c: "unat (sdsavail r) = unat (sdsalloc r) - unat (sdslen r)"
    unfolding sds_header_ok_def by (intro sdsavail_capacity(2)) simp_all
  from r l ad bl tk al u h c
  show "\<exists>r. sdsMakeRoomFor True fresh s addlen = Inr r
            \<and> sdslen r = sdslen s
            \<and> unat (sdsalloc r) =
                (if unat (sdslen s) + unat addlen < 2 ^ 20
                 then 2 * (unat (sdslen s) + unat addlen)
                 else unat (sdslen s) + unat addlen + 2 ^ 20)
            \<and> addlen \<le> sdsavail r
            \<and> sds_header_ok r
            \<and> unat (sdsavail r) = unat (sdsalloc r) - unat (sdslen r)
            \<and> length (buf r) = unat (sdsalloc r) + 1
            \<and> take (unat (sdslen s) + 1) (buf r) = take (unat (sdslen s) + 1) (buf s)"
    by (intro exI[of _ r]) simp
qed

text \<open>Two calls: \<open>"foo"\<close> in a type 5 header grows by 10 to capacity 26 in a type 8
  header; a type 8 string of length 3 and capacity 10 has 7 bytes available and is
  returned as it is when 5 are asked for.\<close>

theorem sdsMakeRoomFor_growth_policy_witness:
  "sds_header_ok \<lparr>flags = 24, len = 0, alloc = 0, buf = [102, 111, 111, 0]\<rparr>
   \<and> unat (sdsalloc \<lparr>flags = 24, len = 0, alloc = 0, buf = [102, 111, 111, 0]\<rparr>)
       - unat (sdslen \<lparr>flags = 24, len = 0, alloc = 0, buf = [102, 111, 111, 0]\<rparr>)
       < unat (10 :: size_t)
   \<and> sdsavail \<lparr>flags = 24, len = 0, alloc = 0, buf = [102, 111, 111, 0]\<rparr> < 10
   \<and> unat (sdslen \<lparr>flags = 24, len = 0, alloc = 0, buf = [102, 111, 111, 0]\<rparr>)
       < length (buf \<lparr>flags = 24, len = 0, alloc = 0, buf = [102, 111, 111, 0]\<rparr>)
   \<and> unat (sdslen \<lparr>flags = 24, len = 0, alloc = 0, buf = [102, 111, 111, 0]\<rparr>)
         + unat (10 :: size_t) + 2 ^ 20 + 18 < (2 :: nat) ^ 64
   \<and> sdsMakeRoomFor True 0 \<lparr>flags = 24, len = 0, alloc = 0, buf = [102, 111, 111, 0]\<rparr> 10
       = Inr \<lparr>flags = 1, len = 3, alloc = 26, buf = [102, 111, 111, 0] @ replicate 23 0\<rparr>
   \<and> sdsalloc \<lparr>flags = 1, len = 3, alloc = 26, buf = [102, 111, 111, 0] @ replicate 23 0\<rparr> = 26
   \<and> sdsGrowLen \<lparr>flags = 24, len = 0, alloc = 0, buf = [102, 111, 111, 0]\<rparr> 10 = 26
   \<and> sds_header_ok \<lparr>flags = 1, len = 3, alloc = 10, buf = [102, 111, 111, 0] @ replicate 7 0\<rparr>
   \<and> unat (sdsavail \<lparr>flags = 1, len = 3, alloc = 10, buf = [102, 111, 111, 0] @ replicate 7 0\<rparr>)
       = 10 - 3
   \<and> sdsavail \<lparr>flags = 1, len = 3, alloc = 10, buf = [102, 111, 111, 0] @ replicate 7 0\<rparr> \<ge> 5
   \<and> sdsMakeRoomFor True 0 \<lparr>flags = 1, len = 3, alloc = 10, buf = [102, 111, 111, 0] @ replicate 7 0\<rparr> 5
       = Inr \<lparr>flags = 1, len = 3, alloc = 10, buf = [102, 111, 111, 0] @ replicate 7 0\<rparr>"
  using sdsMakeRoomFor_growth_policy[of "\<lparr>flags = 24, len = 0, alloc = 0, buf = [102, 111, 111, 0]\<rparr>"
      10 True 0 "\<lparr>flags = 1, len = 3, alloc = 26, buf = [102, 111, 111, 0] @ replicate 23 0\<rparr>"]
    sdsMakeRoomFor_growth_policy[of "\<lparr>flags = 1, len = 3, alloc = 10, buf = [102, 111, 111, 0] @ replicate 7 0\<rparr>"
      5 True 0 "\<lparr>flags = 1, len = 3, alloc = 10, buf = [102, 111, 111, 0] @ replicate 7 0\<rparr>"]
  by (simp add: sdsMakeRoomFor_def sdsavail_def sdslen_def sdsalloc_def sdssetlen_def sdssetalloc_def
      sdsReqType_def sdsHdrSize_def sdsField_def SDS_TYPE_5_LEN_def SDS_TYPE_defs SDS_MAX_PREALLOC_def
      sdsGrowLen_def sds_header_ok_def sdsTypeMaxLen_def Let_def)

subsection \<open>Splitting\<close>

declare sdssplitlen_loop.simps[simp del]

lemma sdsnewlen_ok_not_NULL:
  "sdsnewlen True fresh (Init bytes) n \<noteq> Inl NULL_returned"
  by (simp add: sdsnewlen_def Let_def)

lemma sdsnewlen_ok_Inr:
  assumes "unat n \<le> length bytes" and "unat n + 18 < 2 ^ 64"
  shows "\<exists>tok. sdsnewlen True fresh (Init bytes) n = Inr tok"
  using assms(1) sds_block_room[OF assms(2)]
  by (simp add: sdsnewlen_def Let_def)

lemma sdssplitlen_loop_not_NULL:
  assumes ok: "\<And>i. okf i"
  shows "sdssplitlen_loop okf fresh s slen sep seplen j start slots tokens k \<noteq> Inr (None, c)"
proof (induction "nat (slen - (seplen - 1) - j)" arbitrary: j start slots tokens k rule: less_induct)
  case less
  note IH = less.hyps
  show ?case
  proof (cases "seplen < 1")
    case True
    then show ?thesis by (subst sdssplitlen_loop.simps) simp
  next
    case sep: False
    show ?thesis
    proof (cases "j < slen - (seplen - 1)")
      case False
      then show ?thesis
        using sep ok sdsnewlen_ok_not_NULL[of fresh "drop (nat start) s" "of_int (slen - start)"]
        by (subst sdssplitlen_loop.simps) (simp split: sum.splits sds_error.splits)
    next
      case True
      have m1: "nat (slen - (seplen - 1) - (j + 1)) < nat (slen - (seplen - 1) - j)"
        using True by simp
      have m2: "nat (slen - (seplen - 1) - (j + seplen - 1 + 1)) < nat (slen - (seplen - 1) - j)"
        using True sep by simp
      show ?thesis
        using sep True ok IH[OF m1] IH[OF m2]
          sdsnewlen_ok_not_NULL[of fresh "drop (nat start) s" "of_int (j - start)"]
        by (subst sdssplitlen_loop.simps) (simp add: Let_def split: sum.splits sds_error.splits)
    qed
  qed
qed


lemma unat_of_int_small:
  assumes "0 \<le> x" and "x < 2 ^ 30"
  shows "unat (of_int x :: 64 word) = nat x"
proof -
  have "(of_int x :: 64 word) = of_nat (nat x)" using assms(1) by simp
  moreover have "nat x < 2 ^ 64" using assms by (simp add: nat_less_iff) 
  ultimately show ?thesis by (simp add: unat_of_nat del: of_nat_nat)
qed

lemma sdssplitlen_token:
  assumes "0 \<le> start" "start \<le> e" "e \<le> slen" "slen \<le> int (length s)" "slen + 2 \<le> 2 ^ 30"
  shows "\<exists>tok. sdsnewlen True fresh (Init (drop (nat start) s)) (of_int (e - start)) = Inr tok"
proof -
  have u: "unat (of_int (e - start) :: 64 word) = nat (e - start)"
    using assms by (intro unat_of_int_small) auto
  show ?thesis
    using assms u by (intro sdsnewlen_ok_Inr) auto
qed

lemma sdssplitlen_loop_total:
  assumes ok: "\<And>i. okf i" and sep: "1 \<le> seplen" and ls: "slen \<le> int (length s)"
    and lsep: "seplen \<le> int (length sep)" and small: "slen + 2 \<le> 2 ^ 30"
  shows "0 \<le> start \<Longrightarrow> start \<le> j \<Longrightarrow> j \<le> slen \<Longrightarrow> int (length tokens) \<le> j
     \<Longrightarrow> \<exists>toks. sdssplitlen_loop okf fresh s slen sep seplen j start slots tokens k
           = Inr (Some toks, int (length toks)) \<and> toks \<noteq> []"
proof (induction "nat (slen - (seplen - 1) - j)" arbitrary: j start slots tokens k rule: less_induct)
  case less
  note IH = less.hyps
  note inv = less.prems
  show ?case
  proof (cases "j < slen - (seplen - 1)")
    case False
    obtain tok where "sdsnewlen True fresh (Init (drop (nat start) s)) (of_int (slen - start)) = Inr tok"
      using sdssplitlen_token[of start slen slen s fresh] inv ls small by auto
    then show ?thesis
      using False ok sep
      by (subst sdssplitlen_loop.simps) (simp add: Let_def)
  next
    case True
    have m1: "nat (slen - (seplen - 1) - (j + 1)) < nat (slen - (seplen - 1) - j)"
      using True by simp
    have m2: "nat (slen - (seplen - 1) - (j + seplen - 1 + 1)) < nat (slen - (seplen - 1) - j)"
      using True sep by simp
    have nov: "slots < int (length tokens) + 2 \<Longrightarrow> \<not> INT_MAX < slots * 2"
      using inv True small sep by (simp add: INT_MAX_def)
    obtain tok where tok: "sdsnewlen True fresh (Init (drop (nat start) s)) (of_int (j - start)) = Inr tok"
      using sdssplitlen_token[of start j slen s fresh] inv ls small by auto
    have rd: "\<not> (j < 0 \<or> int (length s) < j + seplen \<or> int (length sep) < seplen)"
      using inv True ls lsep by auto
    have r1: "\<And>sl kk. \<exists>toks. sdssplitlen_loop okf fresh s slen sep seplen (j + 1) start sl tokens kk
           = Inr (Some toks, int (length toks)) \<and> toks \<noteq> []"
      using IH[OF m1] inv True sep by auto
    have r2: "\<And>sl kk. \<exists>toks. sdssplitlen_loop okf fresh s slen sep seplen (j + seplen - 1 + 1) (j + seplen) sl (tokens @ [tok]) kk
           = Inr (Some toks, int (length toks)) \<and> toks \<noteq> []"
      using IH[OF m2] inv True sep by auto
    show ?thesis
      using sep True ok nov tok rd r1 r2
      by (subst sdssplitlen_loop.simps) (auto simp add: Let_def)
  qed
qed


text \<open>
  Claim C7 (as amended). On zero input length, with a valid separator and the array
  allocated, \<open>sdssplitlen\<close> returns a non-null empty array and sets \<open>*count\<close> to 0.
  It returns \<open>NULL\<close> when the separator is invalid (\<open>seplen < 1\<close>), when the length is
  negative or when the first allocation fails, and a \<open>NULL\<close> return occurs only on an
  invalid separator, a negative length or an allocation failure: when every allocation
  succeeds and the arguments are readable (at most \<open>2^30 - 2\<close> bytes), an array of at
  least one token is returned with \<open>*count\<close> its length.
\<close>

theorem sdssplitlen_null_return:
  "(1 \<le> seplen \<and> okf 0 \<longrightarrow> sdssplitlen okf fresh s 0 sep seplen count = Inr (Some [], 0))
   \<and> (seplen < 1 \<or> slen < 0 \<or> \<not> okf 0 \<longrightarrow>
        (\<exists>c. sdssplitlen okf fresh s slen sep seplen count = Inr (None, c)))
   \<and> (sdssplitlen okf fresh s slen sep seplen count = Inr (None, c) \<longrightarrow>
        seplen < 1 \<or> slen < 0 \<or> (\<exists>i. \<not> okf i))
   \<and> ((\<forall>i. okf i) \<and> 1 \<le> seplen \<and> 0 < slen \<and> slen \<le> int (length s)
        \<and> seplen \<le> int (length sep) \<and> slen + 2 \<le> 2 ^ 30 \<longrightarrow>
        (\<exists>toks. sdssplitlen okf fresh s slen sep seplen count = Inr (Some toks, int (length toks))
            \<and> toks \<noteq> []))"
proof (intro conjI impI)
  assume "1 \<le> seplen \<and> okf 0"
  then show "sdssplitlen okf fresh s 0 sep seplen count = Inr (Some [], 0)"
    by (simp add: sdssplitlen_def)
next
  assume "seplen < 1 \<or> slen < 0 \<or> \<not> okf 0"
  then show "\<exists>c. sdssplitlen okf fresh s slen sep seplen count = Inr (None, c)"
    by (auto simp: sdssplitlen_def)
next
  assume r: "sdssplitlen okf fresh s slen sep seplen count = Inr (None, c)"
  show "seplen < 1 \<or> slen < 0 \<or> (\<exists>i. \<not> okf i)"
  proof (rule ccontr)
    assume "\<not> (seplen < 1 \<or> slen < 0 \<or> (\<exists>i. \<not> okf i))"
    then have ok: "\<And>i. okf i" and g: "\<not> seplen < 1" "\<not> slen < 0" by auto
    from r g ok[of 0] have "slen \<noteq> 0"
      by (auto simp: sdssplitlen_def)
    with r g ok[of 0] have "sdssplitlen_loop okf fresh s slen sep seplen 0 0 5 [] 1 = Inr (None, c)"
      by (simp add: sdssplitlen_def)
    with sdssplitlen_loop_not_NULL[of okf fresh s slen sep seplen 0 0 5 "[]" 1 c] ok
    show False by simp
  qed
next
  assume a: "(\<forall>i. okf i) \<and> 1 \<le> seplen \<and> 0 < slen \<and> slen \<le> int (length s)
        \<and> seplen \<le> int (length sep) \<and> slen + 2 \<le> 2 ^ 30"
  then have ok: "\<And>i. okf i" by simp
  from a sdssplitlen_loop_total[of okf seplen slen s sep 0 0 "[]" fresh 5 1] ok
  show "\<exists>toks. sdssplitlen okf fresh s slen sep seplen count = Inr (Some toks, int (length toks))
            \<and> toks \<noteq> []"
    by (simp add: sdssplitlen_def)
qed

theorem sdssplitlen_null_return_witness:
  "(1 :: int) \<le> 1 \<and> (\<lambda>_. True) (0 :: nat)
   \<and> sdssplitlen (\<lambda>_. True) 0 [97, 44, 98] 0 [44] 1 7 = Inr (Some [], 0)
   \<and> (0 :: int) < 1
   \<and> sdssplitlen (\<lambda>_. True) 0 [97, 44, 98] 3 [] 0 7 = Inr (None, 7)
   \<and> (0 :: int) < 3 \<and> (3 :: int) \<le> int (length [97, 44, 98 :: byte])
   \<and> (1 :: int) \<le> int (length [44 :: byte]) \<and> (3 :: int) + 2 \<le> 2 ^ 30
   \<and> sdssplitlen (\<lambda>_. True) 0 [97, 44, 98] 3 [44] 1 7
       = Inr (Some [\<lparr>flags = 8, len = 0, alloc = 0, buf = [97, 0]\<rparr>,
                    \<lparr>flags = 8, len = 0, alloc = 0, buf = [98, 0]\<rparr>], 2)"
  using sdssplitlen_null_return[of 1 "\<lambda>_. True" 0 "[97, 44, 98]" "[44]" 7 3 7]
    sdssplitlen_null_return[of 0 "\<lambda>_. True" 0 "[97, 44, 98]" "[]" 7 3 7]
  by (simp add: sdssplitlen_def sdssplitlen_loop.simps sdsnewlen_def sdsReqType_def sdsHdrSize_def
       SDS_TYPE_defs Let_def INT_MAX_def)

theorem sdssplitlen_negative_length_counterexample:
  "sdssplitlen (\<lambda>_. True) 0 [97, 44, 98] (- 1) [44] 1 7 = Inr (None, 7)"
  by (simp add: sdssplitlen_def)

section \<open>Verification: DICT\<close>

subsection \<open>Expansion\<close>


lemma dictNextPower_loop_pow:
  fixes sz :: ulong
  assumes "sz < LONG_MAX"
  shows "2 \<le> k \<Longrightarrow> k \<le> 63 \<Longrightarrow> (k = 2 \<or> (2 :: ulong) ^ (k - 1) < sz) \<Longrightarrow>
     \<exists>m. k \<le> m \<and> m \<le> 63 \<and> dictNextPower_loop sz (2 ^ k) = Some (2 ^ m) \<and> sz \<le> 2 ^ m
        \<and> (m = 2 \<or> (2 :: ulong) ^ (m - 1) < sz)"
proof (induction "63 - k" arbitrary: k)
  case 0
  then have k: "k = 63" by simp
  have "sz \<le> 2 ^ 63" using assms by (simp add: LONG_MAX_def word_less_nat_alt word_le_nat_alt)
  then show ?case using 0 k
    by (subst dictNextPower_loop.simps) auto
next
  case (Suc n)
  then have k: "k < 63" by simp
  show ?case
  proof (cases "sz \<le> 2 ^ k")
    case True
    then show ?thesis using Suc.prems
      by (subst dictNextPower_loop.simps) auto
  next
    case False
    then have lt: "(2 :: ulong) ^ k < sz" by simp
    have "n = 63 - Suc k" using Suc.hyps(2) by simp
    from Suc.hyps(1)[OF this] lt k Suc.prems
    obtain m where m: "Suc k \<le> m" "m \<le> 63" "dictNextPower_loop sz (2 ^ Suc k) = Some (2 ^ m)"
        "sz \<le> 2 ^ m" "m = 2 \<or> (2 :: ulong) ^ (m - 1) < sz"
      by auto
    have "dictNextPower_loop sz (2 ^ k) = dictNextPower_loop sz (2 ^ k * 2)"
      using False by (subst dictNextPower_loop.simps) simp
    then have "dictNextPower_loop sz (2 ^ k) = Some (2 ^ m)"
      using m(3) by (simp add: mult.commute)
    moreover have "k \<le> m" using m(1) by simp
    ultimately show ?thesis using m(2,4,5) by blast
  qed
qed

lemma dictNextPower_pow:
  assumes "sz < LONG_MAX"
  shows "\<exists>m. 2 \<le> m \<and> m \<le> 63 \<and> dictNextPower sz = Some (2 ^ m) \<and> sz \<le> 2 ^ m
        \<and> (m = 2 \<or> (2 :: ulong) ^ (m - 1) < sz)"
  using dictNextPower_loop_pow[OF assms, of 2] assms
  by (auto simp: dictNextPower_def DICT_HT_INITIAL_SIZE_def)

lemma dictNextPower_big:
  assumes "LONG_MAX \<le> sz"
  shows "dictNextPower sz = Some (2 ^ 63)"
  using assms by (simp add: dictNextPower_def LONG_MAX_def)


lemma unat_pow2:
  assumes "m < 64"
  shows "unat ((2 :: 64 word) ^ m) = 2 ^ m"
proof -
  have "(2 :: 64 word) ^ m = of_nat (2 ^ m)" by simp
  then have "unat ((2 :: 64 word) ^ m) = 2 ^ m mod 2 ^ 64"
    by (simp only: unat_of_nat len_of_numeral_defs) simp
  also have "\<dots> = 2 ^ m"
  proof -
    have "(2 :: nat) ^ m < 2 ^ 64" using assms by (intro power_strict_increasing) simp_all
    then show ?thesis by simp
  qed
  finally show ?thesis .
qed

lemma slots_of_bytes:
  fixes realsize :: ulong
  assumes "realsize < 2 ^ 61"
  shows "unat (realsize * 8) div 8 = unat realsize"
proof -
  have "unat realsize < 2 ^ 61" using assms by (simp add: word_less_nat_alt)
  then have "unat realsize * unat (8 :: ulong) < 2 ^ LENGTH(64)" by simp
  then have "unat (realsize * 8) = unat realsize * unat (8 :: ulong)"
    by (rule unat_mult_lem[THEN iffD1])
  then show ?thesis by simp
qed

text \<open>
  \<open>dictExpand(d, size)\<close> always returns; the rounded size is a power of two
  \<open>2^m\<close> with \<open>2 \<le> m \<le> 63\<close>, the smallest one that is at least \<open>size\<close> and at
  least 4 (for \<open>size \<le> 2^63\<close>). It returns \<open>DICT_ERR\<close> and leaves the dict unchanged
  when a rehash is in progress, when \<open>ht[0].used\<close> exceeds \<open>size\<close> or when the rounded
  size is the current size of \<open>ht[0]\<close>, and in no other case: otherwise it returns
  \<open>DICT_OK\<close> and the new table (no entry in it, \<open>used = 0\<close>, mask \<open>2^m - 1\<close>) becomes
  \<open>ht[0]\<close> when \<open>ht[0].table\<close> was \<open>NULL\<close>, leaving \<open>ht[1]\<close> as it was, and becomes
  \<open>ht[1]\<close> with \<open>rehashidx = 0\<close> otherwise, leaving \<open>ht[0]\<close> and its entries as
  they were. The new bucket array has \<open>2^m\<close> empty buckets as long as its byte count is
  representable (\<open>m \<le> 60\<close>).
\<close>

theorem dictExpand_outcome:
  "\<exists>m. 2 \<le> m \<and> m \<le> 63 \<and> dictNextPower sz = Some (2 ^ m)
     \<and> (sz \<le> 2 ^ 63 \<longrightarrow> sz \<le> 2 ^ m \<and> (m = 2 \<or> 2 ^ (m - 1) < sz))
     \<and> (dictIsRehashing d \<or> ht_used (ht0 d) > sz \<or> 2 ^ m = ht_size (ht0 d) \<longrightarrow>
          dictExpand p d sz = Some (DICT_ERR, d))
     \<and> (\<not> dictIsRehashing d \<and> ht_used (ht0 d) \<le> sz \<and> 2 ^ m \<noteq> ht_size (ht0 d)
          \<and> table (ht0 d) = 0 \<longrightarrow>
          dictExpand p d sz = Some (DICT_OK, d\<lparr>ht0 := dictExpand_table p (2 ^ m)\<rparr>)
          \<and> ht1 (d\<lparr>ht0 := dictExpand_table p (2 ^ m)\<rparr>) = ht1 d)
     \<and> (\<not> dictIsRehashing d \<and> ht_used (ht0 d) \<le> sz \<and> 2 ^ m \<noteq> ht_size (ht0 d)
          \<and> table (ht0 d) \<noteq> 0 \<longrightarrow>
          dictExpand p d sz
            = Some (DICT_OK, d\<lparr>ht1 := dictExpand_table p (2 ^ m), rehashidx := 0\<rparr>)
          \<and> ht0 (d\<lparr>ht1 := dictExpand_table p (2 ^ m), rehashidx := 0\<rparr>) = ht0 d)
     \<and> (m \<le> 60 \<longrightarrow> buckets (dictExpand_table p (2 ^ m)) = replicate (2 ^ m) [])"
proof -
  obtain m where m: "2 \<le> m" "m \<le> 63" "dictNextPower sz = Some (2 ^ m)"
      "sz \<le> 2 ^ 63 \<longrightarrow> sz \<le> 2 ^ m \<and> (m = 2 \<or> 2 ^ (m - 1) < sz)"
  proof (cases "sz < LONG_MAX")
    case True
    from dictNextPower_pow[OF this] show ?thesis using that by blast
  next
    case False
    then have ge: "LONG_MAX \<le> sz" by simp
    then have "sz \<le> 2 ^ 63 \<longrightarrow> (2 :: ulong) ^ (63 - 1) < sz"
      by (simp add: LONG_MAX_def word_less_nat_alt word_le_nat_alt)
    with dictNextPower_big[OF ge] show ?thesis using that[of 63] by simp
  qed
  have sl: "m \<le> 60 \<longrightarrow> buckets (dictExpand_table p (2 ^ m)) = replicate (2 ^ m) []"
  proof
    assume le: "m \<le> 60"
    then have "(2 :: nat) ^ m < 2 ^ 61" by (intro power_strict_increasing) simp_all
    then have "(2 :: ulong) ^ m < 2 ^ 61"
      using le by (simp add: word_less_nat_alt unat_pow2)
    from slots_of_bytes[OF this] le show "buckets (dictExpand_table p (2 ^ m)) = replicate (2 ^ m) []"
      by (simp add: dictExpand_table_def unat_pow2)
  qed
  show ?thesis
    apply (rule exI[of _ m])
    using m sl
    apply (simp add: dictExpand_def dictExpand_install_def DICT_OK_def DICT_ERR_def)
    apply (auto dest: leD)
    done
qed

theorem dictExpand_outcome_witness:
  "dictNextPower 8 = Some (2 ^ 3) \<and> (8 :: ulong) \<le> 2 ^ 63
   \<and> \<not> dictIsRehashing dict_example \<and> ht_used (ht0 dict_example) \<le> 8
   \<and> (2 :: ulong) ^ 3 \<noteq> ht_size (ht0 dict_example) \<and> table (ht0 dict_example) \<noteq> 0
   \<and> dictExpand 8192 dict_example 8
       = Some (DICT_OK, dict_example\<lparr>ht1 := \<lparr>table = 8192, buckets = [[], [], [], [], [], [], [], []],
                  ht_size = 8, ht_sizemask = 7, ht_used = 0\<rparr>, rehashidx := 0\<rparr>)
   \<and> dictExpand 8192 dict_example 3 = Some (DICT_ERR, dict_example)
   \<and> dictExpand 8192 dict_example 4 = Some (DICT_ERR, dict_example)"
proof -
  have r: "replicate 8 ([] :: dictEntry list) = [[], [], [], [], [], [], [], []]"
    by (simp add: numeral_eq_Suc)
  have n: "dictNextPower 8 = Some 8" "dictNextPower 4 = Some 4"
    by (simp_all add: dictNextPower_def dictNextPower_loop.simps LONG_MAX_def DICT_HT_INITIAL_SIZE_def)
  have e: "dictNextPower 8 = Some (2 ^ 3) \<and> (8 :: ulong) \<le> 2 ^ 63
   \<and> \<not> dictIsRehashing dict_example \<and> ht_used (ht0 dict_example) \<le> 8
   \<and> (2 :: ulong) ^ 3 \<noteq> ht_size (ht0 dict_example) \<and> table (ht0 dict_example) \<noteq> 0
   \<and> dictExpand 8192 dict_example 8
       = Some (DICT_OK, dict_example\<lparr>ht1 := \<lparr>table = 8192, buckets = [[], [], [], [], [], [], [], []],
                  ht_size = 8, ht_sizemask = 7, ht_used = 0\<rparr>, rehashidx := 0\<rparr>)
   \<and> dictExpand 8192 dict_example 3 = Some (DICT_ERR, dict_example)
   \<and> dictExpand 8192 dict_example 4 = Some (DICT_ERR, dict_example)"
    by (simp add: dictExpand_def dictExpand_install_def dictExpand_table_def n r dict_example_def
        dictIsRehashing_def DICT_OK_def DICT_ERR_def)
  show ?thesis
    by (insert dictExpand_outcome[of 8 dict_example 8192], rule e)
qed
text \<open>
  Claim C10 (a defect of the code). The byte count \<open>realsize*sizeof(dictEntry*)\<close> passed
  to \<open>zcalloc\<close> is computed in \<open>unsigned long\<close> and wraps for a rounded size above
  \<open>2^60\<close>. \<open>dictExpand(d, 2^61)\<close> on the example dict, which is not rehashing and holds
  four entries in four buckets, returns \<open>DICT_OK\<close> and installs as \<open>ht[1]\<close> a table that
  records \<open>2^61\<close> buckets and the mask \<open>2^61 - 1\<close> over a block of \<open>2^61 * 8 = 0\<close> bytes:
  there is no bucket in it, where the rounded size asks for \<open>2^61\<close> of them.
\<close>

theorem dictExpand_overflow_example:
  "(2305843009213693952 :: ulong) = 2 ^ 61
   \<and> \<not> dictIsRehashing dict_example
   \<and> ht_used (ht0 dict_example) \<le> 2305843009213693952
   \<and> dictNextPower 2305843009213693952 = Some 2305843009213693952
   \<and> ht_size (ht0 dict_example) \<noteq> 2305843009213693952
   \<and> (2305843009213693952 :: ulong) * 8 = 0
   \<and> dictExpand 8192 dict_example 2305843009213693952
       = Some (DICT_OK, dict_example\<lparr>ht1 := \<lparr>table = 8192, buckets = [],
                  ht_size = 2305843009213693952, ht_sizemask = 2305843009213693951,
                  ht_used = 0\<rparr>, rehashidx := 0\<rparr>)"
proof -
  have n: "dictNextPower 2305843009213693952 = Some 2305843009213693952"
    by (simp add: dictNextPower_def dictNextPower_loop.simps LONG_MAX_def DICT_HT_INITIAL_SIZE_def)
  show ?thesis
    by (simp add: dictExpand_def dictExpand_install_def dictExpand_table_def n
        dict_example_def dictIsRehashing_def DICT_OK_def DICT_ERR_def)
qed

theorem dictExpand_overflow_example_witness:
  "\<exists>d'. dictExpand 8192 dict_example (2 ^ 61) = Some (DICT_OK, d')
     \<and> ht_size (ht1 d') = 2 ^ 61 \<and> unat (ht_size (ht1 d')) = 2 ^ 61
     \<and> length (buckets (ht1 d')) = 0"
proof -
  let ?d = "dict_example\<lparr>ht1 := \<lparr>table = 8192, buckets = [],
                  ht_size = 2305843009213693952, ht_sizemask = 2305843009213693951,
                  ht_used = 0\<rparr>, rehashidx := 0\<rparr>"
  from dictExpand_overflow_example
  have e: "dictExpand 8192 dict_example 2305843009213693952 = Some (DICT_OK, ?d)"
    by blast
  have "ht_size (ht1 ?d) = 2 ^ 61 \<and> unat (ht_size (ht1 ?d)) = 2 ^ 61
      \<and> length (buckets (ht1 ?d)) = 0"
    by simp
  with e show ?thesis by (intro exI[of _ ?d]) simp
qed

lemma dictExpand_ok:
  assumes "\<not> dictIsRehashing d" and "ht_used (ht0 d) \<le> sz" and "dictNextPower sz = Some r"
    and "r \<noteq> ht_size (ht0 d)"
  shows "dictExpand p d sz = Some (DICT_OK, dictExpand_install d (dictExpand_table p r))"
  using assms by (auto simp: dictExpand_def dest: leD)

lemma dictExpand_table_buckets:
  assumes "m \<le> 60"
  shows "buckets (dictExpand_table p (2 ^ m)) = replicate (2 ^ m) []"
proof -
  have "(2 :: nat) ^ m < 2 ^ 61" using assms by (intro power_strict_increasing) simp_all
  then have "(2 :: ulong) ^ m < 2 ^ 61"
    using assms by (simp add: word_less_nat_alt unat_pow2)
  from slots_of_bytes[OF this] assms show ?thesis
    by (simp add: dictExpand_table_def unat_pow2)
qed

lemma double_used:
  fixes u :: ulong
  assumes "u \<le> 2 ^ 59"
  shows "unat (u * 2) = 2 * unat u" and "u \<le> u * 2" and "u * 2 < LONG_MAX" and "u * 2 \<le> 2 ^ 60"
proof -
  have b: "unat u \<le> 2 ^ 59" using assms by (simp add: word_le_nat_alt)
  then have "unat u * unat (2 :: ulong) < 2 ^ LENGTH(64)" by simp
  then have "unat (u * 2) = unat u * unat (2 :: ulong)" by (rule unat_mult_lem[THEN iffD1])
  then show u2: "unat (u * 2) = 2 * unat u" by simp
  show "u \<le> u * 2" using u2 by (simp add: word_le_nat_alt)
  show "u * 2 < LONG_MAX" using u2 b by (simp add: word_less_nat_alt LONG_MAX_def)
  show "u * 2 \<le> 2 ^ 60" using u2 b by (simp add: word_le_nat_alt)
qed

text \<open>
  Claim C2 (as amended). The expansion check does nothing while a rehash is in progress.
  For a dict that is not rehashing: if \<open>ht[0]\<close> has zero buckets (and holds at most four
  entries) it expands to 4 buckets; otherwise it expands, to the request \<open>2 * used\<close>,
  exactly when \<open>used \<ge> size\<close> and the resize flag is set or \<open>used/size > 5\<close>, and
  leaves the dict unchanged when not. The expansion installs a table whose size is the
  smallest power of two that is at least the request and at least 4 (\<open>used \<le> 2^59\<close>
  keeps the request and the byte count of the bucket array representable).
\<close>

theorem dictExpandIfNeeded_trigger:
  "(dictIsRehashing d \<longrightarrow> dictExpandIfNeeded can_resize p d = Some (DICT_OK, d))
   \<and> (\<not> dictIsRehashing d \<and> ht_size (ht0 d) = 0 \<and> ht_used (ht0 d) \<le> 4 \<longrightarrow>
        dictExpandIfNeeded can_resize p d
          = Some (DICT_OK, dictExpand_install d (dictExpand_table p 4))
        \<and> buckets (dictExpand_table p 4) = replicate 4 []
        \<and> ht_size (dictExpand_table p 4) = 4)
   \<and> (\<not> dictIsRehashing d \<and> ht_size (ht0 d) \<noteq> 0
        \<and> ht_used (ht0 d) \<ge> ht_size (ht0 d)
        \<and> (can_resize \<or> ht_used (ht0 d) div ht_size (ht0 d) > 5)
        \<and> ht_used (ht0 d) \<le> 2 ^ 59 \<longrightarrow>
        (\<exists>m. 2 \<le> m \<and> m \<le> 60
           \<and> 2 * unat (ht_used (ht0 d)) \<le> 2 ^ m
           \<and> (m = 2 \<or> 2 ^ (m - 1) < 2 * unat (ht_used (ht0 d)))
           \<and> dictExpandIfNeeded can_resize p d
               = Some (DICT_OK, dictExpand_install d (dictExpand_table p (2 ^ m)))
           \<and> buckets (dictExpand_table p (2 ^ m)) = replicate (2 ^ m) []
           \<and> ht_size (dictExpand_table p (2 ^ m)) = 2 ^ m
           \<and> dictExpand_install d (dictExpand_table p (2 ^ m)) \<noteq> d))
   \<and> (\<not> dictIsRehashing d \<and> ht_size (ht0 d) \<noteq> 0
        \<and> \<not> (ht_used (ht0 d) \<ge> ht_size (ht0 d)
              \<and> (can_resize \<or> ht_used (ht0 d) div ht_size (ht0 d) > 5)) \<longrightarrow>
        dictExpandIfNeeded can_resize p d = Some (DICT_OK, d))"
proof (intro conjI impI)
  assume "dictIsRehashing d"
  then show "dictExpandIfNeeded can_resize p d = Some (DICT_OK, d)"
    by (simp add: dictExpandIfNeeded_def)
next
  assume a: "\<not> dictIsRehashing d \<and> ht_size (ht0 d) = 0 \<and> ht_used (ht0 d) \<le> 4"
  have n: "dictNextPower 4 = Some 4"
    by (simp add: dictNextPower_def dictNextPower_loop.simps LONG_MAX_def DICT_HT_INITIAL_SIZE_def)
  from a dictExpand_ok[of d 4 4 p] n
  show "dictExpandIfNeeded can_resize p d
          = Some (DICT_OK, dictExpand_install d (dictExpand_table p 4))"
    by (simp add: dictExpandIfNeeded_def DICT_HT_INITIAL_SIZE_def)
  show "buckets (dictExpand_table p 4) = replicate 4 []"
    using dictExpand_table_buckets[of 2 p] by simp
  show "ht_size (dictExpand_table p 4) = 4"
    by (simp add: dictExpand_table_def)
next
  assume a: "\<not> dictIsRehashing d \<and> ht_size (ht0 d) \<noteq> 0
        \<and> ht_used (ht0 d) \<ge> ht_size (ht0 d)
        \<and> (can_resize \<or> ht_used (ht0 d) div ht_size (ht0 d) > 5)
        \<and> ht_used (ht0 d) \<le> 2 ^ 59"
  let ?u = "ht_used (ht0 d)"
  from a have u59: "?u \<le> 2 ^ 59" by simp
  note du = double_used[OF u59]
  from dictNextPower_pow[OF du(3)]
  obtain m where m: "2 \<le> m" "m \<le> 63" "dictNextPower (?u * 2) = Some (2 ^ m)" "?u * 2 \<le> 2 ^ m"
      "m = 2 \<or> (2 :: ulong) ^ (m - 1) < ?u * 2"
    by blast
  have m60: "m \<le> 60"
  proof (rule ccontr)
    assume "\<not> m \<le> 60"
    then have m1: "60 \<le> m - 1" "m \<noteq> 2" "m - 1 < 64" using m(2) by simp_all
    then have "(2 :: nat) ^ 60 \<le> 2 ^ (m - 1)" by (intro power_increasing) simp_all
    moreover have "(2 :: ulong) ^ (m - 1) < ?u * 2" using m(5) m1 by simp
    then have "(2 :: nat) ^ (m - 1) < 2 * unat ?u"
      using m1 du(1) by (simp add: word_less_nat_alt unat_pow2)
    moreover have "2 * unat ?u \<le> 2 ^ 60" using du(4) du(1) by (simp add: word_le_nat_alt)
    ultimately show False by simp
  qed
  have le: "2 * unat ?u \<le> 2 ^ m"
    using m(4) m60 du(1) by (simp add: word_le_nat_alt unat_pow2)
  have lt: "m = 2 \<or> 2 ^ (m - 1) < 2 * unat ?u"
    using m(5) m60 du(1) by (auto simp: word_less_nat_alt unat_pow2)
  have szlt: "ht_size (ht0 d) < 2 ^ m"
  proof -
    have "unat (ht_size (ht0 d)) \<noteq> 0" using a by (simp add: unat_eq_0)
    moreover have "unat (ht_size (ht0 d)) \<le> unat ?u" using a by (simp add: word_le_nat_alt)
    ultimately have "unat (ht_size (ht0 d)) < 2 ^ m" using le by simp
    then show ?thesis using m60 by (simp add: word_less_nat_alt unat_pow2)
  qed
  then have ne: "2 ^ m \<noteq> ht_size (ht0 d)" by auto
  have ex: "dictExpandIfNeeded can_resize p d
               = Some (DICT_OK, dictExpand_install d (dictExpand_table p (2 ^ m)))"
    using a dictExpand_ok[of d "?u * 2" "2 ^ m" p] m(3) ne du(2)
    by (simp add: dictExpandIfNeeded_def dict_force_resize_ratio_def)
  have chg: "dictExpand_install d (dictExpand_table p (2 ^ m)) \<noteq> d"
  proof
    assume e: "dictExpand_install d (dictExpand_table p (2 ^ m)) = d"
    show False
    proof (cases "table (ht0 d) = 0")
      case True
      with e have "ht_size (ht0 (d\<lparr>ht0 := dictExpand_table p (2 ^ m)\<rparr>)) = ht_size (ht0 d)"
        by (simp add: dictExpand_install_def)
      then show False using ne by (simp add: dictExpand_table_def)
    next
      case False
      with e have "rehashidx (d\<lparr>ht1 := dictExpand_table p (2 ^ m), rehashidx := 0\<rparr>) = rehashidx d"
        by (simp add: dictExpand_install_def)
      then show False using a by (simp add: dictIsRehashing_def)
    qed
  qed
  show "\<exists>m. 2 \<le> m \<and> m \<le> 60
           \<and> 2 * unat (ht_used (ht0 d)) \<le> 2 ^ m
           \<and> (m = 2 \<or> 2 ^ (m - 1) < 2 * unat (ht_used (ht0 d)))
           \<and> dictExpandIfNeeded can_resize p d
               = Some (DICT_OK, dictExpand_install d (dictExpand_table p (2 ^ m)))
           \<and> buckets (dictExpand_table p (2 ^ m)) = replicate (2 ^ m) []
           \<and> ht_size (dictExpand_table p (2 ^ m)) = 2 ^ m
           \<and> dictExpand_install d (dictExpand_table p (2 ^ m)) \<noteq> d"
    using m(1) m60 le lt ex dictExpand_table_buckets[OF m60, of p] chg
    by (intro exI[of _ m]) (simp add: dictExpand_table_def)
next
  assume "\<not> dictIsRehashing d \<and> ht_size (ht0 d) \<noteq> 0
        \<and> \<not> (ht_used (ht0 d) \<ge> ht_size (ht0 d)
              \<and> (can_resize \<or> ht_used (ht0 d) div ht_size (ht0 d) > 5))"
  then show "dictExpandIfNeeded can_resize p d = Some (DICT_OK, d)"
    by (auto simp: dictExpandIfNeeded_def dict_force_resize_ratio_def)
qed

theorem dictExpandIfNeeded_trigger_witness:
  "\<not> dictIsRehashing dict_example \<and> ht_size (ht0 dict_example) \<noteq> 0
   \<and> ht_size (ht0 dict_example) \<le> ht_used (ht0 dict_example)
   \<and> ht_used (ht0 dict_example) \<le> 2 ^ 59
   \<and> dictExpandIfNeeded True 8192 dict_example = Some (DICT_OK, dict_example_rehashing)
   \<and> dictIsRehashing dict_example_rehashing
   \<and> dictExpandIfNeeded False 8192 dict_example = Some (DICT_OK, dict_example)"
proof -
  have r: "replicate 8 ([] :: dictEntry list) = [[], [], [], [], [], [], [], []]"
    by (simp add: numeral_eq_Suc)
  have n: "dictNextPower 8 = Some 8"
    by (simp add: dictNextPower_def dictNextPower_loop.simps LONG_MAX_def DICT_HT_INITIAL_SIZE_def)
  have e: "\<not> dictIsRehashing dict_example \<and> ht_size (ht0 dict_example) \<noteq> 0
   \<and> ht_size (ht0 dict_example) \<le> ht_used (ht0 dict_example)
   \<and> ht_used (ht0 dict_example) \<le> 2 ^ 59
   \<and> dictExpandIfNeeded True 8192 dict_example = Some (DICT_OK, dict_example_rehashing)
   \<and> dictIsRehashing dict_example_rehashing
   \<and> dictExpandIfNeeded False 8192 dict_example = Some (DICT_OK, dict_example)"
    by (simp add: dictExpandIfNeeded_def dictExpand_def dictExpand_install_def dictExpand_table_def
        n r dict_example_def dict_example_rehashing_def dictIsRehashing_def
        dict_force_resize_ratio_def DICT_OK_def DICT_ERR_def)
  show ?thesis
    by (insert dictExpandIfNeeded_trigger[of dict_example True 8192], rule e)
qed

theorem dictExpandIfNeeded_rehashing_counterexample:
  "ht_size (ht0 dict_example_rehashing) \<noteq> 0
   \<and> ht_size (ht0 dict_example_rehashing) \<le> ht_used (ht0 dict_example_rehashing)
   \<and> dictExpandIfNeeded True 12288 dict_example_rehashing = Some (DICT_OK, dict_example_rehashing)"
  by (simp add: dictExpandIfNeeded_def dict_example_def dict_example_rehashing_def
      dictIsRehashing_def)

subsection \<open>Incremental rehashing\<close>

lemma dictRehash_scan_takeWhile:
  assumes "1 \<le> ev"
  shows "dictRehash_scan bs k ev =
     (let e = length (takeWhile (\<lambda>b. b = []) bs)
      in if nat ev \<le> e then Inr (True, k + nat ev, 0)
         else if e = length bs then Inl Out_of_bounds
         else Inr (False, k + e, ev - int e))"
  using assms
proof (induction bs arbitrary: k ev)
  case Nil
  then show ?case by simp
next
  case (Cons b bs)
  show ?case
  proof (cases "b = []")
    case False
    then show ?thesis using Cons.prems by simp
  next
    case True
    show ?thesis
    proof (cases "ev = 1")
      case True
      with \<open>b = []\<close> show ?thesis by (simp add: INT_MIN_def)
    next
      case False
      with Cons.prems have "1 \<le> ev - 1" by simp
      from Cons.IH[OF this, of "Suc k"] \<open>b = []\<close> False Cons.prems
      show ?thesis
        by (auto simp: Let_def INT_MIN_def nat_diff_distrib)
    qed
  qed
qed


lemma dictRehash_chain_foldl:
  assumes "ht_sizemask h1 = ht_sizemask (ht1 d)"
    and "unat (ht_sizemask h1) < length (buckets h1)"
  shows "dictRehash_chain d c h0 h1 =
     Inr (h0\<lparr>ht_used := ht_used h0 - of_nat (length c)\<rparr>,
          h1\<lparr>buckets := foldl (rehash_place d) (buckets h1) c,
             ht_used := ht_used h1 + of_nat (length c)\<rparr>)"
  using assms
proof (induction c arbitrary: h0 h1)
  case Nil
  then show ?case by simp
next
  case (Cons e c)
  let ?h = "dictHashKey d (de_key e) AND ht_sizemask h1"
  have "?h \<le> ht_sizemask h1" by (rule word_and_le1)
  then have lt: "unat ?h < length (buckets h1)"
    using Cons.prems(2) by (simp add: word_le_nat_alt)
  let ?h1 = "h1\<lparr>buckets := (buckets h1)[unat ?h := e # buckets h1 ! unat ?h],
                ht_used := ht_used h1 + 1\<rparr>"
  have "dictRehash_chain d (e # c) h0 h1 = dictRehash_chain d c (h0\<lparr>ht_used := ht_used h0 - 1\<rparr>) ?h1"
    using lt by (simp add: Let_def)
  also have "\<dots> = Inr ((h0\<lparr>ht_used := ht_used h0 - 1\<rparr>)\<lparr>ht_used := ht_used (h0\<lparr>ht_used := ht_used h0 - 1\<rparr>) - of_nat (length c)\<rparr>,
          ?h1\<lparr>buckets := foldl (rehash_place d) (buckets ?h1) c,
             ht_used := ht_used ?h1 + of_nat (length c)\<rparr>)"
    using Cons.prems by (intro Cons.IH) simp_all
  finally have eq: "dictRehash_chain d (e # c) h0 h1 =
      Inr ((h0\<lparr>ht_used := ht_used h0 - 1\<rparr>)\<lparr>ht_used := ht_used (h0\<lparr>ht_used := ht_used h0 - 1\<rparr>) - of_nat (length c)\<rparr>,
          ?h1\<lparr>buckets := foldl (rehash_place d) (buckets ?h1) c,
             ht_used := ht_used ?h1 + of_nat (length c)\<rparr>)" .
  have rp: "rehash_place d (buckets h1) e = (buckets h1)[unat ?h := e # buckets h1 ! unat ?h]"
    using Cons.prems(1) by (simp add: rehash_place_def Let_def)
  show ?case
    unfolding eq by (simp add: rp algebra_simps)
qed

lemma length_foldl_rehash_place:
  "length (foldl (rehash_place d) t c) = length t"
  by (induction c arbitrary: t) (simp_all add: rehash_place_def Let_def)

lemma takeWhile_full_length:
  "length (takeWhile P xs) = length xs \<Longrightarrow> takeWhile P xs = xs"
  by (induction xs) (auto split: if_splits)

lemma next_nonempty_bucket:
  fixes bs :: "'a list list"
  assumes e_def: "e = length (takeWhile (\<lambda>b. b = []) (drop r bs))"
  assumes "concat (drop r bs) \<noteq> []"
  shows "r + e < length bs" and "bs ! (r + e) \<noteq> []" and "e < length (drop r bs)"
    and "length (concat (drop r bs)) = length (bs ! (r + e)) + length (concat (drop (Suc (r + e)) bs))"
proof -
  let ?ds = "drop r bs"
  let ?P = "\<lambda>b :: 'a list. b = []"
  have "\<exists>b \<in> set ?ds. b \<noteq> []" using assms(2) by simp
  then have ne: "takeWhile ?P ?ds \<noteq> ?ds" by simp
  have "e \<noteq> length ?ds"
  proof
    assume "e = length ?ds"
    then have "length (takeWhile ?P ?ds) = length ?ds" by (simp only: e_def)
    then have "takeWhile ?P ?ds = ?ds" by (rule takeWhile_full_length)
    with ne show False by simp
  qed
  moreover have "e \<le> length ?ds" by (simp only: e_def length_takeWhile_le)
  ultimately show e: "e < length ?ds" by simp
  then show re: "r + e < length bs" by simp
  have nth: "?ds ! e = bs ! (r + e)" using re by simp
  have "length (takeWhile ?P ?ds) < length ?ds" using e by (simp only: e_def)
  then have "\<not> ?P (?ds ! length (takeWhile ?P ?ds))" by (rule nth_length_takeWhile)
  then have "?ds ! e \<noteq> []" by (simp add: e_def)
  then show "bs ! (r + e) \<noteq> []" using nth by simp
  have sp: "?ds = take e ?ds @ ?ds ! e # drop (Suc e) ?ds"
    using e by (rule id_take_nth_drop)
  have tk: "take e ?ds = takeWhile ?P ?ds"
    unfolding e_def by (rule takeWhile_eq_take[symmetric])
  have ce: "concat (take e ?ds) = []"
    unfolding tk by (auto dest: set_takeWhileD)
  have "concat ?ds = concat (take e ?ds @ ?ds ! e # drop (Suc e) ?ds)"
    using sp by (rule arg_cong)
  also have "\<dots> = ?ds ! e @ concat (drop (Suc e) ?ds)"
    using ce by simp
  finally have "concat ?ds = ?ds ! e @ concat (drop (Suc e) ?ds)" .
  then have "length (concat ?ds) = length (?ds ! e) + length (concat (drop (Suc e) ?ds))"
    by simp
  moreover have "drop (Suc e) ?ds = drop (Suc (r + e)) bs" by (simp add: add.commute)
  ultimately show "length (concat (drop r bs)) = length (bs ! (r + e)) + length (concat (drop (Suc (r + e)) bs))"
    using nth by simp
qed

lemma unat_lt64: "unat (x :: 64 word) < 2 ^ 64"
  by (rule order_less_le_trans[OF unsigned_less]) simp

lemma dict_rehash_inv_nonempty:
  assumes "dict_rehash_inv d" and "ht_used (ht0 d) \<noteq> 0"
  shows "concat (drop (unat (rehashidx d)) (buckets (ht0 d))) \<noteq> []"
proof -
  have "unat (ht_used (ht0 d)) \<noteq> 0" using assms(2) by (simp add: unat_0_iff)
  moreover have "unat (ht_used (ht0 d)) = length (concat (drop (unat (rehashidx d)) (buckets (ht0 d))))"
    using assms(1) unfolding dict_rehash_inv_def by simp
  ultimately show ?thesis by auto
qed

lemma dictRehash_step_spec:
  assumes inv: "dict_rehash_inv d" and ev: "1 \<le> ev" and u: "ht_used (ht0 d) \<noteq> 0"
    and e: "e = length (takeWhile (\<lambda>b. b = []) (drop (unat (rehashidx d)) (buckets (ht0 d))))"
  shows "dictRehash_step d ev =
     (if nat ev \<le> e
      then Inr (True, d\<lparr>rehashidx := of_nat (unat (rehashidx d) + nat ev)\<rparr>, 0)
      else Inr (False, rehash_move d (unat (rehashidx d) + e), ev - int e))"
proof -
  let ?bs = "buckets (ht0 d)" and ?r = "unat (rehashidx d)"
  note ne = dict_rehash_inv_nonempty[OF inv u]
  note nx = next_nonempty_bucket[OF e ne]
  have len0: "length ?bs = unat (ht_size (ht0 d))" and len1: "length (buckets (ht1 d)) = unat (ht_size (ht1 d))"
    and mask: "ht_sizemask (ht1 d) < ht_size (ht1 d)"
    using inv unfolding dict_rehash_inv_def by simp_all
  have "?r < length ?bs" using nx(1) by simp
  then have as: "rehashidx d < ht_size (ht0 d)" using len0 by (simp add: word_less_nat_alt)
  have sc: "dictRehash_scan (drop ?r ?bs) 0 ev =
      (if nat ev \<le> e then Inr (True, nat ev, 0) else Inr (False, e, ev - int e))"
    using dictRehash_scan_takeWhile[OF ev, of "drop ?r ?bs" 0] nx(3) e by (simp add: Let_def)
  have m1: "unat (ht_sizemask (ht1 d)) < length (buckets (ht1 d))"
    using mask len1 by (simp add: word_less_nat_alt)
  note ch = dictRehash_chain_foldl[of "ht1 d" d "?bs ! (?r + e)" "ht0 d", OF refl m1]
  show ?thesis
  proof (cases "nat ev \<le> e")
    case True
    then show ?thesis using as sc by (simp add: dictRehash_step_def)
  next
    case False
    then show ?thesis
      using as sc ch by (simp add: dictRehash_step_def rehash_move_def Let_def)
  qed
qed

lemma dict_rehash_inv_move:
  assumes inv: "dict_rehash_inv d" and u: "ht_used (ht0 d) \<noteq> 0"
    and e: "e = length (takeWhile (\<lambda>b. b = []) (drop (unat (rehashidx d)) (buckets (ht0 d))))"
  shows "dict_rehash_inv (rehash_move d (unat (rehashidx d) + e))"
proof -
  let ?bs = "buckets (ht0 d)" and ?r = "unat (rehashidx d)"
  let ?i = "?r + e"
  let ?c = "?bs ! ?i"
  note ne = dict_rehash_inv_nonempty[OF inv u]
  note nx = next_nonempty_bucket[OF e ne]
  have len0: "length ?bs = unat (ht_size (ht0 d))" and len1: "length (buckets (ht1 d)) = unat (ht_size (ht1 d))"
    and mask: "ht_sizemask (ht1 d) < ht_size (ht1 d)"
    and used: "unat (ht_used (ht0 d)) = length (concat (drop ?r ?bs))"
    using inv unfolding dict_rehash_inv_def by simp_all
  have "?i + 1 \<le> unat (ht_size (ht0 d))" using nx(1) len0 by simp
  moreover have "unat (ht_size (ht0 d)) < 2 ^ 64" by (rule unat_lt64)
  ultimately have "?i + 1 < 2 ^ 64" by simp
  then have idx: "unat (of_nat (?i + 1) :: 64 word) = ?i + 1"
    by (simp only: unat_of_nat len_of_numeral_defs) simp
  have cl: "length ?c \<le> unat (ht_used (ht0 d))" using used nx(4) by simp
  then have "length ?c < 2 ^ 64" using unat_lt64[of "ht_used (ht0 d)"] by simp
  then have uc: "unat (of_nat (length ?c) :: 64 word) = length ?c"
    by (simp only: unat_of_nat len_of_numeral_defs) simp
  have "(of_nat (length ?c) :: 64 word) \<le> ht_used (ht0 d)"
    using cl uc by (simp add: word_le_nat_alt)
  then have "unat (ht_used (ht0 d) - of_nat (length ?c)) = unat (ht_used (ht0 d)) - length ?c"
    using uc by (simp add: unat_sub)
  also have "\<dots> = length (concat (drop (Suc ?i) ?bs))" using used nx(4) by simp
  also have "\<dots> = length (concat (drop (Suc ?i) (?bs[?i := []])))" by simp
  finally have used': "unat (ht_used (ht0 d) - of_nat (length ?c))
      = length (concat (drop (Suc ?i) (?bs[?i := []])))" .
  show ?thesis
    unfolding dict_rehash_inv_def
    using len0 len1 mask used' idx
    by (simp add: rehash_move_def Let_def length_foldl_rehash_place)
qed

lemma dictRehash_loop_spec:
  "dict_rehash_inv d \<Longrightarrow> 1 \<le> budget \<Longrightarrow>
     dictRehash_loop d (int n) (int budget) = Inr (rehash_spec n budget d)"
proof (induction n arbitrary: d budget)
  case 0
  show ?case
    by (subst dictRehash_loop.simps)
       (simp add: INT_MIN_def dictRehash_finish_def rehash_done_def dictReset_def)
next
  case (Suc n)
  show ?case
  proof (cases "ht_used (ht0 d) = 0")
    case True
    then show ?thesis
      by (subst dictRehash_loop.simps)
         (simp add: INT_MIN_def dictRehash_finish_def rehash_done_def dictReset_def)
  next
    case False
    define e where "e = length (takeWhile (\<lambda>b. b = []) (drop (unat (rehashidx d)) (buckets (ht0 d))))"
    have ev: "1 \<le> int budget" using Suc.prems(2) by simp
    note st = dictRehash_step_spec[OF Suc.prems(1) ev False e_def]
    show ?thesis
    proof (cases "budget \<le> e")
      case True
      then show ?thesis
        using False st e_def
        by (subst dictRehash_loop.simps) (simp add: INT_MIN_def Let_def)
    next
      case gt: False
      have inv': "dict_rehash_inv (rehash_move d (unat (rehashidx d) + e))"
        by (rule dict_rehash_inv_move[OF Suc.prems(1) False e_def])
      have b': "1 \<le> budget - e" using gt by simp
      have "dictRehash_loop (rehash_move d (unat (rehashidx d) + e)) (int n) (int (budget - e))
          = Inr (rehash_spec n (budget - e) (rehash_move d (unat (rehashidx d) + e)))"
        by (rule Suc.IH[OF inv' b'])
      moreover have "int (budget - e) = int budget - int e" using gt by simp
      ultimately show ?thesis
        using False gt st e_def
        by (subst dictRehash_loop.simps) (simp add: INT_MIN_def Let_def)
    qed
  qed
qed


text \<open>
  Claim C1. For every dict in the migrating state (cursor not negative, the tables as
  the loop relies on them) and every \<open>n > 0\<close> (with \<open>n*10\<close> an \<open>int\<close>),
  \<open>dictRehash(d, n)\<close> returns, and does what the specification says: its value, the
  dict it leaves and the array it frees are those of \<open>rehash_spec\<close>, run with \<open>n\<close> and
  a budget of \<open>10 * n\<close> empty buckets.
\<close>

theorem dictRehash_refines_spec:
  assumes "dict_migrating d" and "0 < n" and "n * 10 \<le> INT_MAX"
  shows "dictRehash d n = Inr (rehash_spec (nat n) (nat (n * 10)) d)"
proof -
  have inv: "dict_rehash_inv d" and r: "0 \<le> sint (rehashidx d)"
    using assms(1) by (simp_all add: dict_migrating_def)
  have "rehashidx d \<noteq> - 1"
  proof
    assume "rehashidx d = - 1"
    then have "sint (rehashidx d) = - 1" by simp
    with r show False by simp
  qed
  then have re: "dictIsRehashing d" by (simp add: dictIsRehashing_def)
  have b: "1 \<le> nat (n * 10)" using assms(2) by simp
  have "dictRehash_loop d (int (nat n)) (int (nat (n * 10))) = Inr (rehash_spec (nat n) (nat (n * 10)) d)"
    by (rule dictRehash_loop_spec[OF inv b])
  then show ?thesis
    using assms(2,3) re by (simp add: dictRehash_def INT_MIN_def)
qed

lemma rehash_spec_example:
  "rehash_spec 1 10 dict_example_rehashing = (1, dict_example_step, [])"
  by (simp add: rehash_move_def rehash_place_def rehash_done_def dictHashKey_def Let_def
      dict_example_step_def dict_example_rehashing_def dict_example_def)

lemma dict_migrating_example: "dict_migrating dict_example_rehashing"
  by (simp add: dict_migrating_def dict_rehash_inv_def dict_example_rehashing_def dict_example_def)

theorem dictRehash_refines_spec_witness:
  "dict_migrating dict_example_rehashing \<and> (0 :: int) < 1 \<and> (1 :: int) * 10 \<le> INT_MAX
   \<and> dictRehash dict_example_rehashing 1 = Inr (1, dict_example_step, [])"
proof -
  have i: "(1 :: int) * 10 \<le> INT_MAX" by (simp add: INT_MAX_def)
  show ?thesis
    using dictRehash_refines_spec[OF dict_migrating_example _ i] dict_migrating_example
      rehash_spec_example i
    by simp
qed




subsection \<open>Iterators\<close>

lemma dictNext_round_unsafe:
  assumes "it_safe iter = 0" and "- 1 \<le> it_index iter"
    and "it_index iter = - 1 \<longrightarrow> it_entry iter = []"
    and "dictNext_round iter d = Returned e iter' d' \<or> dictNext_round iter d = Again iter' d'"
  shows "d' = d" and "it_safe iter' = 0" and "0 \<le> it_index iter'"
    and "it_fingerprint iter' =
           (if it_index iter = - 1 \<and> it_table iter = 0 then dictFingerprint d
            else it_fingerprint iter)"
  using assms
  by (auto simp: dictNext_round_def dictNext_bucket_def dictNext_return_def Let_def
      split: if_splits list.splits)

lemma dictNext_unsafe:
  "it_safe iter = 0 \<Longrightarrow> - 1 \<le> it_index iter \<Longrightarrow> (it_index iter = - 1 \<longrightarrow> it_entry iter = [])
     \<Longrightarrow> dictNext iter d = Inr (e, iter', d')
     \<Longrightarrow> d' = d \<and> it_safe iter' = 0 \<and> 0 \<le> it_index iter'
         \<and> it_fingerprint iter' =
             (if it_index iter = - 1 \<and> it_table iter = 0 then dictFingerprint d
              else it_fingerprint iter)"
proof (induction iter d rule: dictNext.induct)
  case (1 iter d)
  show ?case
  proof (cases "dictNext_round iter d")
    case (Returned e1 i1 d1)
    with "1.prems"(4) have "e1 = e" "i1 = iter'" "d1 = d'"
      by (simp_all add: dictNext.simps[of iter d])
    with Returned dictNext_round_unsafe[OF "1.prems"(1-3), of d e iter' d'] show ?thesis
      by simp
  next
    case (Aborted a)
    with "1.prems"(4) show ?thesis by (simp add: dictNext.simps[of iter d])
  next
    case (Again i1 d1)
    from dictNext_round_unsafe[OF "1.prems"(1-3), of d e i1 d1] Again
    have r: "d1 = d" "it_safe i1 = 0" "0 \<le> it_index i1"
      "it_fingerprint i1 = (if it_index iter = - 1 \<and> it_table iter = 0 then dictFingerprint d
            else it_fingerprint iter)"
      by simp_all
    from "1.prems"(4) Again have n: "dictNext i1 d1 = Inr (e, iter', d')"
      by (simp add: dictNext.simps[of iter d])
    from "1.IH"[OF Again r(2) _ _ n] r(3)
    have "d' = d1 \<and> it_safe iter' = 0 \<and> 0 \<le> it_index iter'
         \<and> it_fingerprint iter' = it_fingerprint i1"
      by simp
    with r show ?thesis by simp
  qed
qed

lemma sint_small:
  fixes x :: "64 word"
  assumes "x < 2 ^ 63"
  shows "sint x = int (unat x)"
proof -
  have "unat x < 2 ^ 63" using assms by (simp add: word_less_nat_alt)
  then have "int (unat x) < int (2 ^ 63)" by (simp only: of_nat_less_iff)
  then have lt: "int (unat x) < 2 ^ 63" by simp
  have ge: "- (2 ^ 63) \<le> int (unat x)"
    by (rule order_trans[of _ 0]) simp_all
  have "signed_take_bit 63 (int (unat x)) = int (unat x)"
    using ge lt by (rule signed_take_bit_int_eq_self)
  moreover have "sint x = signed_take_bit (LENGTH(64) - Suc 0) (uint x)" by (rule sint_uint)
  ultimately show ?thesis by simp
qed

lemma dictNext_round_total:
  assumes ok: "dict_buckets_ok d" and t: "it_table iter = 0 \<or> it_table iter = 1"
    and i: "- 1 \<le> it_index iter"
  shows "dictNext_round iter d \<noteq> Aborted a"
    and "dictNext_round iter d = Again iter' d' \<Longrightarrow>
           dict_buckets_ok d' \<and> (it_table iter' = 0 \<or> it_table iter' = 1) \<and> - 1 \<le> it_index iter'"
proof -
  have s0: "sint (ht_size (ht0 d)) = int (length (buckets (ht0 d)))"
    and s1: "sint (ht_size (ht1 d)) = int (length (buckets (ht1 d)))"
    and r: "dictIsRehashing d \<Longrightarrow> buckets (ht1 d) \<noteq> []"
    using ok by (auto simp: dict_buckets_ok_def sint_small unat_0_iff)
  have k: "\<And>x. dict_buckets_ok (d\<lparr>iterators := x\<rparr>)"
    using ok by (simp add: dict_buckets_ok_def dictIsRehashing_def)
  show "dictNext_round iter d \<noteq> Aborted a"
    using t i s0 s1 r
    by (auto simp: dictNext_round_def dictNext_bucket_def dictNext_return_def Let_def
        dictIsRehashing_def split: if_splits list.splits)
  show "dictNext_round iter d = Again iter' d' \<Longrightarrow>
           dict_buckets_ok d' \<and> (it_table iter' = 0 \<or> it_table iter' = 1) \<and> - 1 \<le> it_index iter'"
    using t i ok k
    by (auto simp: dictNext_round_def dictNext_bucket_def dictNext_return_def Let_def
        split: if_splits list.splits)
qed

lemma dictNext_total:
  "dict_buckets_ok d \<Longrightarrow> it_table iter = 0 \<or> it_table iter = 1 \<Longrightarrow> - 1 \<le> it_index iter
     \<Longrightarrow> \<exists>r. dictNext iter d = Inr r"
proof (induction iter d rule: dictNext.induct)
  case (1 iter d)
  show ?case
  proof (cases "dictNext_round iter d")
    case (Returned e1 i1 d1)
    then show ?thesis by (simp add: dictNext.simps[of iter d])
  next
    case (Aborted a)
    with dictNext_round_total(1)[OF "1.prems", of a] show ?thesis by simp
  next
    case (Again i1 d1)
    from dictNext_round_total(2)[OF "1.prems" Again]
    have "dict_buckets_ok d1" "it_table i1 = 0 \<or> it_table i1 = 1" "- 1 \<le> it_index i1"
      by simp_all
    from "1.IH"[OF Again this] Again show ?thesis
      by (simp add: dictNext.simps[of iter d])
  qed
qed


lemma dictReleaseIterator_advanced:
  assumes "it_safe iter = 0" and "0 \<le> it_index iter"
  shows "dictReleaseIterator iter d =
     (if it_fingerprint iter = dictFingerprint d then Inr d else Inl Assert_failed)"
  using assms by (auto simp: dictReleaseIterator_def)

text \<open>The fingerprint is a function of the six fields, and it is not injective: the
  example dict with 5317836350769791499 in place of 4 as \<open>ht[0].used\<close> has the
  fingerprint of the example dict.\<close>

lemma dictFingerprint_fields:
  assumes "table (ht0 d') = table (ht0 d)" "ht_size (ht0 d') = ht_size (ht0 d)"
    "ht_used (ht0 d') = ht_used (ht0 d)" "table (ht1 d') = table (ht1 d)"
    "ht_size (ht1 d') = ht_size (ht1 d)" "ht_used (ht1 d') = ht_used (ht1 d)"
  shows "dictFingerprint d' = dictFingerprint d"
  using assms by (simp add: dictFingerprint_def)

lemma dictFingerprint_example:
  "dictFingerprint dict_example = 1962813484467721366"
  "dictFingerprint dict_example_rehashing = 4298353178682455795"
  "dictFingerprint dict_example_deleted = 9351752091717067113"
  "dictFingerprint dict_example_replaced = 1962813484467721366"
  by code_simp+

lemma dictFingerprint_collision:
  "dictFingerprint (dict_example\<lparr>ht0 := (ht0 dict_example)\<lparr>ht_used := 5317836350769791499\<rparr>\<rparr>)
     = dictFingerprint dict_example"
  by code_simp

lemma DICT_OK_ERR: "DICT_OK \<noteq> DICT_ERR"
  by (simp add: DICT_OK_def DICT_ERR_def)

text \<open>What a deletion and an insertion change in a dict that is not rehashing.\<close>

lemma dictDelete_fields:
  assumes nr: "\<not> dictIsRehashing d" and del: "dictDelete d k = Inr (DICT_OK, d')"
  shows "table (ht0 d') = table (ht0 d)" "ht_size (ht0 d') = ht_size (ht0 d)"
    "ht_sizemask (ht0 d') = ht_sizemask (ht0 d)"
    "ht_used (ht0 d') = ht_used (ht0 d) - 1" "ht1 d' = ht1 d" "rehashidx d' = rehashidx d"
    "length (buckets (ht0 d')) = length (buckets (ht0 d))"
  using assms DICT_OK_ERR
  by (auto simp: dictDelete_def dictGenericDelete_def dictGenericDelete_table_def Let_def
      split: if_splits sum.splits option.splits prod.splits)

lemma dictAdd_fields:
  assumes nr: "\<not> dictIsRehashing d" and sz: "ht_size (ht0 d) \<noteq> 0"
    and room: "ht_used (ht0 d) < ht_size (ht0 d)"
    and add: "dictAdd can_resize p v0 d k val = Some (Inr (DICT_OK, d'))"
  shows "table (ht0 d') = table (ht0 d)" "ht_size (ht0 d') = ht_size (ht0 d)"
    "ht_used (ht0 d') = ht_used (ht0 d) + 1" "ht1 d' = ht1 d" "rehashidx d' = rehashidx d"
proof -
  from nr sz room have e: "dictExpandIfNeeded can_resize p d = Some (DICT_OK, d)"
    by (auto simp: dictExpandIfNeeded_def dest: leD)
  show "table (ht0 d') = table (ht0 d)" "ht_size (ht0 d') = ht_size (ht0 d)"
    "ht_used (ht0 d') = ht_used (ht0 d) + 1" "ht1 d' = ht1 d" "rehashidx d' = rehashidx d"
    using add nr e DICT_OK_ERR
    by (auto simp: dictAdd_def dictAddRaw_def dictKeyIndex_def dictKeyIndex_table_def
        dictAddRaw_insert_def dictSetVal_head_def Let_def
        split: if_splits sum.splits option.splits prod.splits list.splits)
qed

lemma dictDelete_dictAdd_fingerprint:
  assumes nr: "\<not> dictIsRehashing d" and u0: "ht_used (ht0 d) \<noteq> 0"
    and us: "ht_used (ht0 d) \<le> ht_size (ht0 d)"
    and del: "dictDelete d k1 = Inr (DICT_OK, d1)"
    and add: "dictAdd can_resize p v0 d1 k2 val = Some (Inr (DICT_OK, d3))"
  shows "dictFingerprint d3 = dictFingerprint d"
proof -
  note f = dictDelete_fields[OF nr del]
  have nr1: "\<not> dictIsRehashing d1" using nr f(6) by (simp add: dictIsRehashing_def)
  have sz1: "ht_size (ht0 d1) \<noteq> 0" using f(2) u0 us by auto
  have "unat (ht_used (ht0 d) - 1) = unat (ht_used (ht0 d)) - 1"
    using u0 by (simp add: unat_minus_one)
  moreover have "0 < unat (ht_used (ht0 d))" using u0 by (simp add: unat_gt_0)
  ultimately have room: "ht_used (ht0 d1) < ht_size (ht0 d1)"
    using f(2,4) us by (simp add: word_less_nat_alt word_le_nat_alt)
  note g = dictAdd_fields[OF nr1 sz1 room add]
  show ?thesis
    using f g by (intro dictFingerprint_fields) simp_all
qed

lemma dict_example_delete:
  "dictDelete dict_example 4 = Inr (DICT_OK, dict_example_deleted)"
  by (simp add: dictDelete_def dictGenericDelete_def dictGenericDelete_table_def dictHashKey_def
      dictCompareKeys_def dictIsRehashing_def Let_def dict_example_def dict_example_deleted_def)

lemma dict_example_add:
  "dictAdd True 8192 0 dict_example_deleted 8 0 = Some (Inr (DICT_OK, dict_example_replaced))"
  by (simp add: dictAdd_def dictAddRaw_def dictKeyIndex_def dictKeyIndex_table_def
      dictAddRaw_insert_def dictSetVal_head_def dictExpandIfNeeded_def dictHashKey_def
      dictCompareKeys_def dictIsRehashing_def Let_def DICT_OK_def DICT_ERR_def
      dict_example_def dict_example_deleted_def dict_example_replaced_def)

lemma dict_example_expand:
  "dictExpand 8192 dict_example 8 = Some (DICT_OK, dict_example_rehashing)"
proof -
  have r: "replicate 8 ([] :: dictEntry list) = [[], [], [], [], [], [], [], []]"
    by (simp add: numeral_eq_Suc)
  have n: "dictNextPower 8 = Some 8"
    by (simp add: dictNextPower_def dictNextPower_loop.simps LONG_MAX_def DICT_HT_INITIAL_SIZE_def)
  show ?thesis
    by (simp add: dictExpand_def dictExpand_install_def dictExpand_table_def n r dict_example_def
        dict_example_rehashing_def dictIsRehashing_def)
qed

lemma dict_example_next:
  "dictNext (dictGetIterator 0) dict_example
     = Inr (Some \<lparr>de_key = 4, de_v = 0\<rparr>, dictIterator_example, dict_example)"
  by (simp add: dictNext.simps dictNext_round_def dictNext_bucket_def dictNext_return_def
      dictGetIterator_def dictIterator_example_def dictFingerprint_example Let_def)
     (simp add: dict_example_def)

text \<open>
  Claim C4 (as amended). Creating an unsafe iterator takes no snapshot, and an iterator
  that was never advanced is released without a check. The first \<open>dictNext\<close> stores the
  fingerprint of the dict; it returns on every dict whose bucket arrays are in order, and
  leaves the dict as it is. Further calls keep the stored fingerprint. The release of an
  unsafe iterator that has been advanced computes the fingerprint again and aborts
  exactly when it differs from the stored one. The fingerprint is a hash of the two table
  addresses, sizes and element counts and of nothing else: two dicts that agree on the
  six have the same fingerprint. On a dict that is not rehashing a successful
  \<open>dictDelete\<close> changes \<open>ht[0].used\<close> by one and none of the other five, and so does a
  successful \<open>dictAdd\<close> that finds room; a deletion followed by an insertion returns the
  six to what they were, and the release of an iterator advanced before the two does not
  abort.
\<close>

theorem dictIterator_fingerprint:
  "it_fingerprint (dictGetIterator fresh) = fresh
   \<and> dictReleaseIterator (dictGetIterator fresh) d2 = Inr d2
   \<and> (dict_buckets_ok d \<longrightarrow>
        (\<exists>e iter. dictNext (dictGetIterator fresh) d = Inr (e, iter, d)
           \<and> it_fingerprint iter = dictFingerprint d
           \<and> it_safe iter = 0 \<and> 0 \<le> it_index iter
           \<and> dictReleaseIterator iter d2
               = (if dictFingerprint d2 = dictFingerprint d then Inr d2 else Inl Assert_failed)))
   \<and> (it_safe iter1 = 0 \<and> 0 \<le> it_index iter1 \<and> dictNext iter1 d2 = Inr (e', iter', d2') \<longrightarrow>
        d2' = d2 \<and> it_fingerprint iter' = it_fingerprint iter1
        \<and> it_safe iter' = 0 \<and> 0 \<le> it_index iter')
   \<and> (it_safe iter1 = 0 \<and> 0 \<le> it_index iter1 \<longrightarrow>
        dictReleaseIterator iter1 d2
          = (if it_fingerprint iter1 = dictFingerprint d2 then Inr d2 else Inl Assert_failed))
   \<and> (table (ht0 d2) = table (ht0 d) \<and> ht_size (ht0 d2) = ht_size (ht0 d)
        \<and> ht_used (ht0 d2) = ht_used (ht0 d) \<and> table (ht1 d2) = table (ht1 d)
        \<and> ht_size (ht1 d2) = ht_size (ht1 d) \<and> ht_used (ht1 d2) = ht_used (ht1 d) \<longrightarrow>
        dictFingerprint d2 = dictFingerprint d)
   \<and> (\<not> dictIsRehashing d \<and> dictDelete d k1 = Inr (DICT_OK, d1) \<longrightarrow>
        ht_used (ht0 d1) = ht_used (ht0 d) - 1
        \<and> table (ht0 d1) = table (ht0 d) \<and> ht_size (ht0 d1) = ht_size (ht0 d)
        \<and> ht1 d1 = ht1 d)
   \<and> (\<not> dictIsRehashing d1 \<and> ht_size (ht0 d1) \<noteq> 0 \<and> ht_used (ht0 d1) < ht_size (ht0 d1)
        \<and> dictAdd can_resize p v0 d1 k2 val = Some (Inr (DICT_OK, d3)) \<longrightarrow>
        ht_used (ht0 d3) = ht_used (ht0 d1) + 1
        \<and> table (ht0 d3) = table (ht0 d1) \<and> ht_size (ht0 d3) = ht_size (ht0 d1)
        \<and> ht1 d3 = ht1 d1)
   \<and> (\<not> dictIsRehashing d \<and> ht_used (ht0 d) \<noteq> 0 \<and> ht_used (ht0 d) \<le> ht_size (ht0 d)
        \<and> dictDelete d k1 = Inr (DICT_OK, d1)
        \<and> dictAdd can_resize p v0 d1 k2 val = Some (Inr (DICT_OK, d3))
        \<and> it_safe iter1 = 0 \<and> 0 \<le> it_index iter1 \<and> it_fingerprint iter1 = dictFingerprint d
        \<longrightarrow> dictReleaseIterator iter1 d3 = Inr d3)"
proof (intro conjI impI)
  show "it_fingerprint (dictGetIterator fresh) = fresh" by (simp add: dictGetIterator_def)
  show "dictReleaseIterator (dictGetIterator fresh) d2 = Inr d2"
    by (simp add: dictGetIterator_def dictReleaseIterator_def)
next
  assume ok: "dict_buckets_ok d"
  let ?it = "dictGetIterator fresh"
  have f: "it_safe ?it = 0" "- 1 \<le> it_index ?it" "it_index ?it = - 1 \<longrightarrow> it_entry ?it = []"
    "it_table ?it = 0 \<or> it_table ?it = 1" "it_index ?it = - 1 \<and> it_table ?it = 0"
    by (simp_all add: dictGetIterator_def)
  from dictNext_total[OF ok f(4) f(2)] obtain e iter d' where
    n: "dictNext ?it d = Inr (e, iter, d')" by (metis prod_cases3)
  from dictNext_unsafe[OF f(1-3) n] f(5)
  have p: "d' = d" "it_safe iter = 0" "0 \<le> it_index iter" "it_fingerprint iter = dictFingerprint d"
    by simp_all
  from dictReleaseIterator_advanced[OF p(2,3), of d2] p(4)
  have "dictReleaseIterator iter d2
      = (if dictFingerprint d2 = dictFingerprint d then Inr d2 else Inl Assert_failed)"
    by (simp add: eq_commute)
  with n p show "\<exists>e iter. dictNext ?it d = Inr (e, iter, d)
           \<and> it_fingerprint iter = dictFingerprint d
           \<and> it_safe iter = 0 \<and> 0 \<le> it_index iter
           \<and> dictReleaseIterator iter d2
               = (if dictFingerprint d2 = dictFingerprint d then Inr d2 else Inl Assert_failed)"
    by blast
next
  assume a: "it_safe iter1 = 0 \<and> 0 \<le> it_index iter1 \<and> dictNext iter1 d2 = Inr (e', iter', d2')"
  then have "it_safe iter1 = 0" "- 1 \<le> it_index iter1" "it_index iter1 = - 1 \<longrightarrow> it_entry iter1 = []"
    "dictNext iter1 d2 = Inr (e', iter', d2')" "it_index iter1 \<noteq> - 1"
    by simp_all
  from dictNext_unsafe[OF this(1-4)] this(5)
  have r: "d2' = d2 \<and> it_fingerprint iter' = it_fingerprint iter1
        \<and> it_safe iter' = 0 \<and> 0 \<le> it_index iter'"
    by simp
  show "d2' = d2" using r by simp
  show "it_fingerprint iter' = it_fingerprint iter1" using r by simp
  show "it_safe iter' = 0" using r by simp
  show "0 \<le> it_index iter'" using r by simp
next
  assume "it_safe iter1 = 0 \<and> 0 \<le> it_index iter1"
  then show "dictReleaseIterator iter1 d2
          = (if it_fingerprint iter1 = dictFingerprint d2 then Inr d2 else Inl Assert_failed)"
    using dictReleaseIterator_advanced by simp
next
  assume "table (ht0 d2) = table (ht0 d) \<and> ht_size (ht0 d2) = ht_size (ht0 d)
        \<and> ht_used (ht0 d2) = ht_used (ht0 d) \<and> table (ht1 d2) = table (ht1 d)
        \<and> ht_size (ht1 d2) = ht_size (ht1 d) \<and> ht_used (ht1 d2) = ht_used (ht1 d)"
  then show "dictFingerprint d2 = dictFingerprint d"
    by (intro dictFingerprint_fields) simp_all
next
  assume a: "\<not> dictIsRehashing d \<and> dictDelete d k1 = Inr (DICT_OK, d1)"
  then have nr: "\<not> dictIsRehashing d" and del: "dictDelete d k1 = Inr (DICT_OK, d1)"
    by simp_all
  note f = dictDelete_fields[OF nr del]
  show "ht_used (ht0 d1) = ht_used (ht0 d) - 1" by (rule f(4))
  show "table (ht0 d1) = table (ht0 d)" by (rule f(1))
  show "ht_size (ht0 d1) = ht_size (ht0 d)" by (rule f(2))
  show "ht1 d1 = ht1 d" by (rule f(5))
next
  assume a: "\<not> dictIsRehashing d1 \<and> ht_size (ht0 d1) \<noteq> 0 \<and> ht_used (ht0 d1) < ht_size (ht0 d1)
        \<and> dictAdd can_resize p v0 d1 k2 val = Some (Inr (DICT_OK, d3))"
  then have nr: "\<not> dictIsRehashing d1" and sz: "ht_size (ht0 d1) \<noteq> 0"
    and room: "ht_used (ht0 d1) < ht_size (ht0 d1)"
    and add: "dictAdd can_resize p v0 d1 k2 val = Some (Inr (DICT_OK, d3))"
    by simp_all
  note g = dictAdd_fields[OF nr sz room add]
  show "ht_used (ht0 d3) = ht_used (ht0 d1) + 1" by (rule g(3))
  show "table (ht0 d3) = table (ht0 d1)" by (rule g(1))
  show "ht_size (ht0 d3) = ht_size (ht0 d1)" by (rule g(2))
  show "ht1 d3 = ht1 d1" by (rule g(4))
next
  assume a: "\<not> dictIsRehashing d \<and> ht_used (ht0 d) \<noteq> 0 \<and> ht_used (ht0 d) \<le> ht_size (ht0 d)
        \<and> dictDelete d k1 = Inr (DICT_OK, d1)
        \<and> dictAdd can_resize p v0 d1 k2 val = Some (Inr (DICT_OK, d3))
        \<and> it_safe iter1 = 0 \<and> 0 \<le> it_index iter1 \<and> it_fingerprint iter1 = dictFingerprint d"
  then have nr: "\<not> dictIsRehashing d" and u0: "ht_used (ht0 d) \<noteq> 0"
    and us: "ht_used (ht0 d) \<le> ht_size (ht0 d)"
    and del: "dictDelete d k1 = Inr (DICT_OK, d1)"
    and add: "dictAdd can_resize p v0 d1 k2 val = Some (Inr (DICT_OK, d3))"
    and it: "it_safe iter1 = 0" "0 \<le> it_index iter1"
    and fp: "it_fingerprint iter1 = dictFingerprint d"
    by simp_all
  from dictDelete_dictAdd_fingerprint[OF nr u0 us del add] fp
  have "it_fingerprint iter1 = dictFingerprint d3" by simp
  with dictReleaseIterator_advanced[OF it, of d3]
  show "dictReleaseIterator iter1 d3 = Inr d3" by simp
qed

text \<open>On the example dict: the iterator after its first \<open>dictNext\<close>; an expansion and a
  deletion after that are caught at the release, the deletion of key 4 followed by the
  insertion of key 8 is not, and neither is there an abort when nothing has changed.\<close>

theorem dictIterator_fingerprint_witness:
  "dict_buckets_ok dict_example
   \<and> dictNext (dictGetIterator 0) dict_example
       = Inr (Some \<lparr>de_key = 4, de_v = 0\<rparr>, dictIterator_example, dict_example)
   \<and> it_safe dictIterator_example = 0 \<and> 0 \<le> it_index dictIterator_example
   \<and> it_fingerprint dictIterator_example = dictFingerprint dict_example
   \<and> dictNext dictIterator_example dict_example
       = Inr (Some \<lparr>de_key = 5, de_v = 0\<rparr>,
              \<lparr>it_index = 1, it_table = 0, it_safe = 0,
               it_entry = [\<lparr>de_key = 5, de_v = 0\<rparr>, \<lparr>de_key = 1, de_v = 0\<rparr>],
               it_nextEntry = [\<lparr>de_key = 1, de_v = 0\<rparr>],
               it_fingerprint = 1962813484467721366\<rparr>, dict_example)
   \<and> it_fingerprint dictIterator_example = 1962813484467721366
   \<and> dictExpand 8192 dict_example 8 = Some (DICT_OK, dict_example_rehashing)
   \<and> dictReleaseIterator dictIterator_example dict_example_rehashing = Inl Assert_failed
   \<and> \<not> dictIsRehashing dict_example \<and> ht_used (ht0 dict_example) \<noteq> 0
   \<and> ht_used (ht0 dict_example) \<le> ht_size (ht0 dict_example)
   \<and> dictDelete dict_example 4 = Inr (DICT_OK, dict_example_deleted)
   \<and> ht_used (ht0 dict_example_deleted) = ht_used (ht0 dict_example) - 1
   \<and> dictReleaseIterator dictIterator_example dict_example_deleted = Inl Assert_failed
   \<and> \<not> dictIsRehashing dict_example_deleted \<and> ht_size (ht0 dict_example_deleted) \<noteq> 0
   \<and> ht_used (ht0 dict_example_deleted) < ht_size (ht0 dict_example_deleted)
   \<and> dictAdd True 8192 0 dict_example_deleted 8 0 = Some (Inr (DICT_OK, dict_example_replaced))
   \<and> ht_used (ht0 dict_example_replaced) = ht_used (ht0 dict_example_deleted) + 1
   \<and> table (ht0 dict_example_replaced) = table (ht0 dict_example)
   \<and> ht_size (ht0 dict_example_replaced) = ht_size (ht0 dict_example)
   \<and> ht_used (ht0 dict_example_replaced) = ht_used (ht0 dict_example)
   \<and> table (ht1 dict_example_replaced) = table (ht1 dict_example)
   \<and> ht_size (ht1 dict_example_replaced) = ht_size (ht1 dict_example)
   \<and> ht_used (ht1 dict_example_replaced) = ht_used (ht1 dict_example)
   \<and> dictFingerprint dict_example_replaced = dictFingerprint dict_example
   \<and> dictReleaseIterator dictIterator_example dict_example_replaced = Inr dict_example_replaced
   \<and> dictReleaseIterator dictIterator_example dict_example = Inr dict_example"
proof -
  have ok: "dict_buckets_ok dict_example"
    by (simp add: dict_buckets_ok_def dict_example_def dictIsRehashing_def)
  have it: "it_safe dictIterator_example = 0" "0 \<le> it_index dictIterator_example"
    "it_fingerprint dictIterator_example = dictFingerprint dict_example"
    "it_fingerprint dictIterator_example = 1962813484467721366"
    by (simp_all add: dictIterator_example_def dictFingerprint_example)
  have nx: "dictNext dictIterator_example dict_example
       = Inr (Some \<lparr>de_key = 5, de_v = 0\<rparr>,
              \<lparr>it_index = 1, it_table = 0, it_safe = 0,
               it_entry = [\<lparr>de_key = 5, de_v = 0\<rparr>, \<lparr>de_key = 1, de_v = 0\<rparr>],
               it_nextEntry = [\<lparr>de_key = 1, de_v = 0\<rparr>],
               it_fingerprint = 1962813484467721366\<rparr>, dict_example)"
    by (simp add: dictNext.simps dictNext_round_def dictNext_bucket_def dictNext_return_def
        dictIterator_example_def Let_def)
       (simp add: dict_example_def)
  have ex: "\<not> dictIsRehashing dict_example" "ht_used (ht0 dict_example) \<noteq> 0"
    "ht_used (ht0 dict_example) \<le> ht_size (ht0 dict_example)"
    by (simp_all add: dict_example_def dictIsRehashing_def)
  have dl: "\<not> dictIsRehashing dict_example_deleted" "ht_size (ht0 dict_example_deleted) \<noteq> 0"
    "ht_used (ht0 dict_example_deleted) < ht_size (ht0 dict_example_deleted)"
    by (simp_all add: dict_example_deleted_def dict_example_def dictIsRehashing_def)
  have fl: "table (ht0 dict_example_replaced) = table (ht0 dict_example)"
    "ht_size (ht0 dict_example_replaced) = ht_size (ht0 dict_example)"
    "ht_used (ht0 dict_example_replaced) = ht_used (ht0 dict_example)"
    "table (ht1 dict_example_replaced) = table (ht1 dict_example)"
    "ht_size (ht1 dict_example_replaced) = ht_size (ht1 dict_example)"
    "ht_used (ht1 dict_example_replaced) = ht_used (ht1 dict_example)"
    by (simp_all add: dict_example_replaced_def dict_example_def)
  note t = dictIterator_fingerprint[where ?iter1.0 = dictIterator_example and d = dict_example
      and ?k1.0 = 4 and ?d1.0 = dict_example_deleted and can_resize = True and p = 8192
      and ?v0.0 = 0 and ?k2.0 = 8 and val = 0 and ?d3.0 = dict_example_replaced]
  have rel: "dictReleaseIterator dictIterator_example dict_example_rehashing = Inl Assert_failed"
    "dictReleaseIterator dictIterator_example dict_example_deleted = Inl Assert_failed"
    "dictReleaseIterator dictIterator_example dict_example = Inr dict_example"
    using t[where ?d2.0 = dict_example_rehashing] t[where ?d2.0 = dict_example_deleted]
      t[where ?d2.0 = dict_example] it dictFingerprint_example
    by simp_all
  have used: "ht_used (ht0 dict_example_deleted) = ht_used (ht0 dict_example) - 1"
    using t[where ?d2.0 = dict_example] ex dict_example_delete by blast
  have used2: "ht_used (ht0 dict_example_replaced) = ht_used (ht0 dict_example_deleted) + 1"
    using t[where ?d2.0 = dict_example] dl dict_example_add by blast
  have same: "dictFingerprint dict_example_replaced = dictFingerprint dict_example"
    using t[where ?d2.0 = dict_example_replaced] fl by blast
  have und: "dictReleaseIterator dictIterator_example dict_example_replaced
      = Inr dict_example_replaced"
    using t[where ?d2.0 = dict_example] ex it dict_example_delete dict_example_add by blast
  have kept: "it_fingerprint dictIterator_example = 1962813484467721366"
    using t[where ?d2.0 = dict_example and e' = "Some \<lparr>de_key = 5, de_v = 0\<rparr>"
        and iter' = "\<lparr>it_index = 1, it_table = 0, it_safe = 0,
               it_entry = [\<lparr>de_key = 5, de_v = 0\<rparr>, \<lparr>de_key = 1, de_v = 0\<rparr>],
               it_nextEntry = [\<lparr>de_key = 1, de_v = 0\<rparr>],
               it_fingerprint = 1962813484467721366\<rparr>" and d2' = dict_example] it(1,2) nx
    by simp
  show ?thesis
    using ok dict_example_next it(1-3) nx kept dict_example_expand ex dict_example_delete
      dl dict_example_add rel used used2 fl same und
    by simp
qed

text \<open>The claim as it was written fails twice: an iterator that is never advanced is
  released without an abort after the dict has been expanded, and an iterator that has
  been advanced is released without an abort after key 4 has been deleted and key 8
  inserted.\<close>

theorem dictIterator_undetected_counterexample:
  "dictExpand 8192 dict_example 8 = Some (DICT_OK, dict_example_rehashing)
   \<and> dict_example_rehashing \<noteq> dict_example
   \<and> dictReleaseIterator (dictGetIterator 0) dict_example_rehashing = Inr dict_example_rehashing
   \<and> dictNext (dictGetIterator 0) dict_example
       = Inr (Some \<lparr>de_key = 4, de_v = 0\<rparr>, dictIterator_example, dict_example)
   \<and> dictDelete dict_example 4 = Inr (DICT_OK, dict_example_deleted)
   \<and> dictAdd True 8192 0 dict_example_deleted 8 0 = Some (Inr (DICT_OK, dict_example_replaced))
   \<and> dict_example_replaced \<noteq> dict_example
   \<and> dictReleaseIterator dictIterator_example dict_example_replaced = Inr dict_example_replaced"
proof -
  have ne: "dict_example_rehashing \<noteq> dict_example"
  proof
    assume "dict_example_rehashing = dict_example"
    then have "rehashidx dict_example_rehashing = rehashidx dict_example" by simp
    then show False by (simp add: dict_example_rehashing_def dict_example_def)
  qed
  have ne2: "dict_example_replaced \<noteq> dict_example"
  proof
    assume "dict_example_replaced = dict_example"
    then have "buckets (ht0 dict_example_replaced) = buckets (ht0 dict_example)" by simp
    then show False by (simp add: dict_example_replaced_def dict_example_def)
  qed
  have r1: "dictReleaseIterator (dictGetIterator 0) dict_example_rehashing
      = Inr dict_example_rehashing"
    by (simp add: dictReleaseIterator_def dictGetIterator_def)
  have r2: "dictReleaseIterator dictIterator_example dict_example_replaced
      = Inr dict_example_replaced"
    by (simp add: dictReleaseIterator_def dictIterator_example_def dictFingerprint_example)
  show ?thesis
    using dict_example_expand ne r1 dict_example_next dict_example_delete dict_example_add ne2 r2
    by simp
qed

section \<open>Verification: ZIPMAP\<close>

lemmas zipmap_defs =
  zipmapSet_def zipmapSet_room_def zipmapSet_compact_def zipmapSet_write_def
  zipmapLookupRaw_def zipmapLookupRaw_round_def zipmapLookupRaw_loop.simps
  zipmapRequiredLength_def
  zipmapRawEntryLength_def zipmapRawKeyLength_def zipmapRawValueLength_def
  zipmapResize_def zipmapEncodeLength_def zipmapEncodeLength_NULL_def zipmapDecodeLength_def
  ZIPMAP_LEN_BYTES_def ZIPMAP_BIGLEN_def ZIPMAP_END_def ZIPMAP_VALUE_MAX_FREE_def
  zm_read_def zm_write_def zm_memcpy_def zm_memmove_def zm_memcmp_def zipmapNew_def bytes_of_def

lemma replicate_numeral: "replicate (numeral n) x = x # replicate (pred_numeral n) x"
  by (simp add: numeral_eq_Suc)

lemma list_update_Cons_numeral: "(x # xs)[numeral n := y] = x # xs[pred_numeral n := y]"
  by (simp add: numeral_eq_Suc)

lemma zipmapSet_foo_bar:
  "zipmapSet junk zipmapNew (bytes_of ''foo'') 3 (bytes_of ''bar'') 3
     = Some ([1, 3] @ bytes_of ''foo'' @ [3, 0] @ bytes_of ''bar'' @ [255], 0)"
  by (simp add: zipmap_defs Let_def replicate_numeral list_update_Cons_numeral)

lemma zipmapSet_hello_world:
  "zipmapSet junk ([1, 3] @ bytes_of ''foo'' @ [3, 0] @ bytes_of ''bar'' @ [255])
       (bytes_of ''hello'') 5 (bytes_of ''world'') 5
     = Some ([2, 3] @ bytes_of ''foo'' @ [3, 0] @ bytes_of ''bar'' @ [5] @ bytes_of ''hello''
               @ [5, 0] @ bytes_of ''world'' @ [255], 0)"
  by (simp add: zipmap_defs Let_def replicate_numeral list_update_Cons_numeral)

lemma bytes_of_example:
  "bytes_of ''foo'' = [0x66, 0x6F, 0x6F]" "bytes_of ''bar'' = [0x62, 0x61, 0x72]"
  "bytes_of ''hello'' = [0x68, 0x65, 0x6C, 0x6C, 0x6F]"
  "bytes_of ''world'' = [0x77, 0x6F, 0x72, 0x6C, 0x64]"
  by (simp_all add: bytes_of_def)

text \<open>
  Claim C8.  \<open>zipmapNew\<close> returns the two bytes \<open>00 FF\<close>; \<open>zipmapSet\<close> of \<open>"foo"\<close> to
  \<open>"bar"\<close> on it, then \<open>zipmapSet\<close> of \<open>"hello"\<close> to \<open>"world"\<close> on the result, return the 24
  bytes \<open>02 03 'f' 'o' 'o' 03 00 'b' 'a' 'r' 05 'h' 'e' 'l' 'l' 'o' 05 00 'w' 'o' 'r' 'l' 'd' FF\<close>
  (both calls store 0 in \<open>*update\<close>), whatever the bytes that \<open>zrealloc\<close> hands out
  uninitialised in the two calls.
\<close>

theorem zipmap_example_layout:
  "zipmapNew = [0x00, 0xFF] \<and>
   (zipmapSet junk1 zipmapNew (bytes_of ''foo'') 3 (bytes_of ''bar'') 3 \<bind>
      (\<lambda>(zm, update). zipmapSet junk2 zm (bytes_of ''hello'') 5 (bytes_of ''world'') 5))
     = Some ([0x02, 0x03, 0x66, 0x6F, 0x6F, 0x03, 0x00, 0x62, 0x61, 0x72,
              0x05, 0x68, 0x65, 0x6C, 0x6C, 0x6F, 0x05, 0x00, 0x77, 0x6F, 0x72, 0x6C, 0x64,
              0xFF], 0) \<and>
   [0x02, 0x03, 0x66, 0x6F, 0x6F, 0x03, 0x00, 0x62, 0x61, 0x72,
    0x05, 0x68, 0x65, 0x6C, 0x6C, 0x6F, 0x05, 0x00, 0x77, 0x6F, 0x72, 0x6C, 0x64, 0xFF]
     = [2, 3] @ bytes_of ''foo'' @ [3, 0] @ bytes_of ''bar'' @ [5] @ bytes_of ''hello''
         @ [5, 0] @ bytes_of ''world'' @ [0xFF :: byte]"
proof -
  have a: "zipmapNew = [0x00, 0xFF]"
    by (simp add: zipmapNew_def ZIPMAP_END_def)
  have b: "(zipmapSet junk1 zipmapNew (bytes_of ''foo'') 3 (bytes_of ''bar'') 3 \<bind>
      (\<lambda>(zm, update). zipmapSet junk2 zm (bytes_of ''hello'') 5 (bytes_of ''world'') 5))
     = Some ([2, 3] @ bytes_of ''foo'' @ [3, 0] @ bytes_of ''bar'' @ [5] @ bytes_of ''hello''
               @ [5, 0] @ bytes_of ''world'' @ [255], 0)"
    by (simp only: zipmapSet_foo_bar zipmapSet_hello_world Option.bind.simps prod.case)
  have c: "[2, 3] @ bytes_of ''foo'' @ [3, 0] @ bytes_of ''bar'' @ [5] @ bytes_of ''hello''
               @ [5, 0] @ bytes_of ''world'' @ [255 :: byte]
         = [0x02, 0x03, 0x66, 0x6F, 0x6F, 0x03, 0x00, 0x62, 0x61, 0x72,
              0x05, 0x68, 0x65, 0x6C, 0x6C, 0x6F, 0x05, 0x00, 0x77, 0x6F, 0x72, 0x6C, 0x64, 0xFF]"
    by (simp add: bytes_of_example)
  show ?thesis
    by (rule conjI[OF a conjI[OF b[unfolded c] c[symmetric]]])
qed

subsection \<open>The free byte after \<open>zipmapSet\<close>\<close>

lemma unat_LEN_BYTES: "unat (ZIPMAP_LEN_BYTES l) = (if l < 254 then 1 else 5)"
  by (simp add: ZIPMAP_LEN_BYTES_def ZIPMAP_BIGLEN_def)

lemma unat_add32: "unat (a :: uint) + unat b < 2 ^ 32 \<Longrightarrow> unat (a + b) = unat a + unat b"
  using unat_add_lem[of a b] by simp

lemma unat_byte_lt: "unat (b :: byte) < 256"
  using unsigned_less[of b, where 'a=nat] by simp

lemma unat_ucast_byte: "unat (ucast (b :: byte) :: uint) = unat b"
  by transfer simp

lemma unat_of_nat32: "n < 2 ^ 32 \<Longrightarrow> unat (of_nat n :: uint) = n"
  by (simp add: unat_of_nat)

lemma ucast_reqlen: "(ucast (ucast (l :: uint) :: ulong) :: uint) = l"
  by (rule bit_word_eqI) (auto simp: bit_simps)

text \<open>The loop of \<open>zipmapLookupRaw\<close> ends on an end marker inside the block, at or after
  the place where it starts.\<close>

lemma zipmapLookupRaw_loop_end:
  "zipmapLookupRaw_loop zm key klen totlen p k = Some (Inr (e, k'))
     \<Longrightarrow> p \<le> e \<and> e < length zm \<and> zm ! e = ZIPMAP_END"
proof (induction "length zm - p" arbitrary: p k rule: less_induct)
  case less
  from less.prems have inb: "p < length zm"
    by (subst (asm) zipmapLookupRaw_loop.simps) (simp split: if_splits)
  show ?case
  proof (cases "zm ! p = ZIPMAP_END")
    case True
    with less.prems inb show ?thesis
      by (subst (asm) zipmapLookupRaw_loop.simps) simp
  next
    case False
    with less.prems inb obtain p1 k1 where
      r: "zipmapLookupRaw_round zm key klen totlen p k = Some (Inr (p1, k1))" and
      l: "zipmapLookupRaw_loop zm key klen totlen p1 k1 = Some (Inr (e, k'))"
      by (subst (asm) zipmapLookupRaw_loop.simps)
         (auto split: option.splits sum.splits prod.splits)
    have adv: "p < p1" using r by (rule zipmapLookupRaw_round_advances)
    from l have "p1 < length zm"
      by (subst (asm) zipmapLookupRaw_loop.simps) (simp split: if_splits)
    with adv have "length zm - p1 < length zm - p" by simp
    from less.hyps[OF this l] adv show ?thesis by simp
  qed
qed

text \<open>A round of the scan without a key, and the same round looking for a key.\<close>

lemma zipmapLookupRaw_round_key:
  assumes r: "zipmapLookupRaw_round zm None 0 True p None = Some (Inr (p1, None))"
      and kl: "length key = unat klen" and small: "unat klen + 5 < 2 ^ 32"
  shows "\<exists>hit. zipmapLookupRaw_round zm (Some key) klen True p k
                  = Some (Inr (p1, if hit then Some p else k)) \<and> (hit \<longrightarrow> k = None)"
proof -
  from r obtain l where d: "zipmapDecodeLength zm p = Some l"
    by (auto simp: zipmapLookupRaw_round_def split: bind_splits)
  define llen where "llen = zipmapEncodeLength_NULL l"
  define q where "q = p + unat (llen + l)"
  from r d obtain l2 where d2: "zipmapDecodeLength zm q = Some l2"
    by (auto simp: zipmapLookupRaw_round_def Let_def llen_def q_def split: bind_splits)
  define q2 where "q2 = q + unat (zipmapEncodeLength_NULL l2)"
  from r d d2 obtain fr where f: "zm_read zm q2 = Some fr"
    and p1: "p1 = q2 + unat (l2 + 1 + ucast fr)"
    by (auto simp: zipmapLookupRaw_round_def Let_def llen_def q_def q2_def split: bind_splits)
  from d2 have qb: "q < length zm"
    by (simp add: zipmapDecodeLength_def split: if_splits)
  show ?thesis
  proof (cases "k = None \<and> l = klen")
    case False
    hence "zipmapLookupRaw_round zm (Some key) klen True p k = Some (Inr (p1, k))"
      using d d2 f p1
      by (auto simp: zipmapLookupRaw_round_def Let_def llen_def q_def q2_def)
    thus ?thesis by (intro exI[of _ False]) simp
  next
    case True
    have "unat llen \<le> 5"
      by (simp add: llen_def zipmapEncodeLength_NULL_def unat_LEN_BYTES)
    with True small have "unat llen + unat l < 2 ^ 32" by simp
    hence "unat (llen + l) = unat llen + unat l" by (rule unat_add32)
    with qb have "p + unat llen + unat l \<le> length zm" by (simp add: q_def)
    with True kl have m: "zm_memcmp zm (p + unat llen) key (unat l)
        = Some (take (unat l) (drop (p + unat llen) zm) = take (unat l) key)"
      by (simp add: zm_memcmp_def)
    define hit where "hit = (take (unat l) (drop (p + unat llen) zm) = take (unat l) key)"
    have "zipmapLookupRaw_round zm (Some key) klen True p k
            = Some (Inr (p1, if hit then Some p else k))"
      using d d2 f p1 True m
      unfolding hit_def q2_def q_def llen_def
      by (simp add: zipmapLookupRaw_round_def Let_def)
    with True show ?thesis by (intro exI[of _ hit]) simp
  qed
qed

text \<open>The size that \<open>zipmapRawEntryLength\<close> gives for an entry is the distance that the
  scan advances over it.\<close>

lemma zipmapRawEntryLength_round:
  assumes r: "zipmapLookupRaw_round zm None 0 True p None = Some (Inr (p1, None))"
      and small: "p1 < 2 ^ 32"
  shows "\<exists>e. zipmapRawEntryLength zm p = Some e \<and> p + unat e = p1"
proof -
  from r obtain l where d: "zipmapDecodeLength zm p = Some l"
    by (auto simp: zipmapLookupRaw_round_def split: bind_splits)
  define llen where "llen = zipmapEncodeLength_NULL l"
  define q where "q = p + unat (llen + l)"
  from r d obtain l2 where d2: "zipmapDecodeLength zm q = Some l2"
    by (auto simp: zipmapLookupRaw_round_def Let_def llen_def q_def split: bind_splits)
  define used where "used = zipmapEncodeLength_NULL l2"
  define q2 where "q2 = q + unat used"
  from r d d2 obtain fr where f: "zm_read zm q2 = Some fr"
    and p1: "p1 = q2 + unat (l2 + 1 + ucast fr)"
    by (auto simp: zipmapLookupRaw_round_def Let_def llen_def q_def q2_def used_def
          split: bind_splits)
  have e: "zipmapRawEntryLength zm p = Some ((llen + l) + (used + (ucast fr + 1 + l2)))"
    using d d2 f
    by (simp add: zipmapRawEntryLength_def zipmapRawKeyLength_def zipmapRawValueLength_def
          Let_def llen_def[symmetric] q_def[symmetric] used_def[symmetric] q2_def[symmetric])
  have c: "ucast fr + 1 + l2 = l2 + 1 + (ucast fr :: uint)" by simp
  from p1 small have s: "unat (llen + l) + unat used + unat (l2 + 1 + ucast fr) < 2 ^ 32"
    by (simp add: q2_def q_def)
  hence "unat (used + (l2 + 1 + ucast fr)) = unat used + unat (l2 + 1 + ucast fr)"
    by (intro unat_add32) simp
  moreover from this s
  have "unat ((llen + l) + (used + (l2 + 1 + ucast fr)))
          = unat (llen + l) + unat (used + (l2 + 1 + ucast fr))"
    by (intro unat_add32) simp
  ultimately have "p + unat ((llen + l) + (used + (ucast fr + 1 + l2))) = p1"
    unfolding c using p1 by (simp add: q2_def q_def)
  with e show ?thesis by blast
qed


lemma zipmapLookupRaw_round_no_key:
  "zipmapLookupRaw_round zm None klen totlen p k = Some r
     \<Longrightarrow> \<exists>p1. r = Inr (p1, k)"
  by (auto simp: zipmapLookupRaw_round_def Let_def split: bind_splits)

lemma zipmapLookupRaw_loop_no_key:
  "zipmapLookupRaw_loop zm None klen totlen p k = Some r
     \<Longrightarrow> \<exists>e. r = Inr (e, k)"
proof (induction "length zm - p" arbitrary: p rule: less_induct)
  case less
  from less.prems have inb: "p < length zm"
    by (subst (asm) zipmapLookupRaw_loop.simps) (simp split: if_splits)
  show ?case
  proof (cases "zm ! p = ZIPMAP_END")
    case True
    with less.prems inb show ?thesis
      by (subst (asm) zipmapLookupRaw_loop.simps) auto
  next
    case False
    with less.prems inb obtain r1 where
      r: "zipmapLookupRaw_round zm None klen totlen p k = Some r1"
      by (subst (asm) zipmapLookupRaw_loop.simps) (auto split: option.splits)
    then obtain p1 where r1: "r1 = Inr (p1, k)"
      using zipmapLookupRaw_round_no_key by blast
    from less.prems inb False r r1
    have l: "zipmapLookupRaw_loop zm None klen totlen p1 k = Some r"
      by (subst (asm) zipmapLookupRaw_loop.simps) simp
    have adv: "p < p1" using r r1 zipmapLookupRaw_round_advances by blast
    from l have "p1 < length zm"
      by (subst (asm) zipmapLookupRaw_loop.simps) (simp split: if_splits)
    with adv have "length zm - p1 < length zm - p" by simp
    from less.hyps[OF this l] show ?thesis .
  qed
qed

text \<open>The scan for a key visits the entries that the scan without a key visits, and a
  pointer that it returns is the start of one of them.\<close>

lemma zipmapLookupRaw_loop_key:
  assumes "zipmapLookupRaw_loop zm None 0 True p None = Some (Inr (e, None))"
      and kl: "length key = unat klen" and small: "unat klen + 5 < 2 ^ 32"
  shows "\<exists>k'. zipmapLookupRaw_loop zm (Some key) klen True p k = Some (Inr (e, k')) \<and>
           (k' = k \<or>
            (\<exists>q q1. k' = Some q \<and> p \<le> q \<and>
               zipmapLookupRaw_round zm None 0 True q None = Some (Inr (q1, None)) \<and> q1 \<le> e))"
  using assms(1)
proof (induction "length zm - p" arbitrary: p k rule: less_induct)
  case less
  from less.prems have inb: "p < length zm"
    by (subst (asm) zipmapLookupRaw_loop.simps) (simp split: if_splits)
  show ?case
  proof (cases "zm ! p = ZIPMAP_END")
    case True
    with less.prems inb have "e = p"
      by (subst (asm) zipmapLookupRaw_loop.simps) simp
    moreover from True inb
    have "zipmapLookupRaw_loop zm (Some key) klen True p k = Some (Inr (p, k))"
      by (subst zipmapLookupRaw_loop.simps) simp
    ultimately show ?thesis by simp
  next
    case False
    with less.prems inb obtain r1 where
      r: "zipmapLookupRaw_round zm None 0 True p None = Some r1"
      by (subst (asm) zipmapLookupRaw_loop.simps) (auto split: option.splits)
    then obtain p1 where r1: "r1 = Inr (p1, None)"
      using zipmapLookupRaw_round_no_key by blast
    from less.prems inb False r r1
    have l: "zipmapLookupRaw_loop zm None 0 True p1 None = Some (Inr (e, None))"
      by (subst (asm) zipmapLookupRaw_loop.simps) simp
    have adv: "p < p1" using r r1 zipmapLookupRaw_round_advances by blast
    from l have "p1 < length zm"
      by (subst (asm) zipmapLookupRaw_loop.simps) (simp split: if_splits)
    with adv have m: "length zm - p1 < length zm - p" by simp
    from zipmapLookupRaw_loop_end[OF l] have p1e: "p1 \<le> e" by simp
    from zipmapLookupRaw_round_key[OF r[unfolded r1] kl small, of k]
    obtain hit where
      rk: "zipmapLookupRaw_round zm (Some key) klen True p k
             = Some (Inr (p1, if hit then Some p else k))"
      and hk: "hit \<longrightarrow> k = None"
      by blast
    define k1 where "k1 = (if hit then Some p else k)"
    from less.hyps[OF m l, of k1] obtain k' where
      lk: "zipmapLookupRaw_loop zm (Some key) klen True p1 k1 = Some (Inr (e, k'))" and
      c: "k' = k1 \<or>
            (\<exists>q q1. k' = Some q \<and> p1 \<le> q \<and>
               zipmapLookupRaw_round zm None 0 True q None = Some (Inr (q1, None)) \<and> q1 \<le> e)"
      by blast
    from inb False rk lk
    have s: "zipmapLookupRaw_loop zm (Some key) klen True p k = Some (Inr (e, k'))"
      by (subst zipmapLookupRaw_loop.simps) (simp add: k1_def)
    from c show ?thesis
    proof
      assume "k' = k1"
      show ?thesis
      proof (cases hit)
        case True
        with \<open>k' = k1\<close> have "k' = Some p" by (simp add: k1_def)
        with r r1 p1e s show ?thesis by auto
      next
        case False
        with \<open>k' = k1\<close> have "k' = k" by (simp add: k1_def)
        with s show ?thesis by simp
      qed
    next
      assume "\<exists>q q1. k' = Some q \<and> p1 \<le> q \<and>
               zipmapLookupRaw_round zm None 0 True q None = Some (Inr (q1, None)) \<and> q1 \<le> e"
      then obtain q q1 where "k' = Some q" "p1 \<le> q"
        "zipmapLookupRaw_round zm None 0 True q None = Some (Inr (q1, None))" "q1 \<le> e"
        by blast
      with adv s show ?thesis by (intro exI[of _ k']) auto
    qed
  qed
qed

lemma zipmap_wf_scan:
  assumes "zipmap_wf zm"
  shows "zipmapLookupRaw_loop zm None 0 True 1 None = Some (Inr (length zm - 1, None))"
    and "2 \<le> length zm" and "length zm < 2 ^ 32"
proof -
  from assms have L: "length zm < 2 ^ 32"
    and b: "zipmapBlobLen zm = Some (of_nat (length zm))"
    by (simp_all add: zipmap_wf_def)
  from b obtain r where r: "zipmapLookupRaw_loop zm None 0 True 1 None = Some r"
    by (auto simp: zipmapBlobLen_def zipmapLookupRaw_def split: bind_splits option.splits)
  then obtain e where re: "r = Inr (e, None)"
    using zipmapLookupRaw_loop_no_key by blast
  from zipmapLookupRaw_loop_end[OF r[unfolded re]] have e: "1 \<le> e" "e < length zm"
    by simp_all
  from b r re have "(ucast (of_nat e + 1 :: uint) :: size_t) = of_nat (length zm)"
    by (simp add: zipmapBlobLen_def zipmapLookupRaw_def)
  hence "unat (ucast (of_nat e + 1 :: uint) :: size_t) = unat (of_nat (length zm) :: size_t)"
    by simp
  moreover have "unat (of_nat e + 1 :: uint) = e + 1"
  proof -
    have "(of_nat e + 1 :: uint) = of_nat (e + 1)" by simp
    moreover have "e + 1 < 2 ^ 32" using e L by simp
    ultimately show ?thesis by (simp only: unat_of_nat32)
  qed
  moreover have "unat (ucast (of_nat e + 1 :: uint) :: size_t) = unat (of_nat e + 1 :: uint)"
    by transfer simp
  moreover have "unat (of_nat (length zm) :: size_t) = length zm"
    using L by (simp add: unat_of_nat)
  ultimately have "e + 1 = length zm" by simp
  with r re e show "zipmapLookupRaw_loop zm None 0 True 1 None = Some (Inr (length zm - 1, None))"
    by simp
  from e show "2 \<le> length zm" by simp
  from L show "length zm < 2 ^ 32" .
qed

text \<open>What the lookup of \<open>zipmapSet\<close> returns on a well-formed zipmap.\<close>

lemma zipmapLookupRaw_wf:
  assumes wf: "zipmap_wf zm"
      and kl: "length key = unat klen" and small: "unat klen + 5 < 2 ^ 32"
  shows "\<exists>k. zipmapLookupRaw zm (Some key) klen True = Some (k, Some (of_nat (length zm))) \<and>
           (k = None \<or>
            (\<exists>q e. k = Some q \<and> zipmapRawEntryLength zm q = Some e \<and> 1 \<le> q \<and>
                   q + unat e + 1 \<le> length zm))"
proof -
  note s = zipmap_wf_scan[OF wf]
  from zipmapLookupRaw_loop_key[OF s(1) kl small, of None] obtain k' where
    l: "zipmapLookupRaw_loop zm (Some key) klen True 1 None = Some (Inr (length zm - 1, k'))" and
    c: "k' = None \<or>
          (\<exists>q q1. k' = Some q \<and> 1 \<le> q \<and>
             zipmapLookupRaw_round zm None 0 True q None = Some (Inr (q1, None)) \<and>
             q1 \<le> length zm - 1)"
    by blast
  have t: "(of_nat (length zm - 1) + 1 :: uint) = of_nat (length zm)"
  proof -
    have "(of_nat (length zm - 1) + 1 :: uint) = of_nat (Suc (length zm - 1))" by simp
    also have "Suc (length zm - 1) = length zm" using s(2) by simp
    finally show ?thesis .
  qed
  from l t have lk: "zipmapLookupRaw zm (Some key) klen True = Some (k', Some (of_nat (length zm)))"
    by (simp add: zipmapLookupRaw_def)
  from c show ?thesis
  proof
    assume "k' = None"
    with lk show ?thesis by simp
  next
    assume "\<exists>q q1. k' = Some q \<and> 1 \<le> q \<and>
             zipmapLookupRaw_round zm None 0 True q None = Some (Inr (q1, None)) \<and>
             q1 \<le> length zm - 1"
    then obtain q q1 where k': "k' = Some q" and q: "1 \<le> q"
      and r: "zipmapLookupRaw_round zm None 0 True q None = Some (Inr (q1, None))"
      and q1: "q1 \<le> length zm - 1"
      by blast
    from q1 s have "q1 < 2 ^ 32" by simp
    from zipmapRawEntryLength_round[OF r this] obtain e where
      "zipmapRawEntryLength zm q = Some e" "q + unat e = q1"
      by blast
    with k' q q1 s(2) lk show ?thesis by (intro exI[of _ k']) auto
  qed
qed

lemma unat_reqlen:
  assumes "unat klen + unat vlen + 11 < 2 ^ 32"
  shows "unat (ucast (zipmapRequiredLength klen vlen) :: uint)
           = unat (ZIPMAP_LEN_BYTES klen) + unat klen + unat (ZIPMAP_LEN_BYTES vlen) + 1 + unat vlen"
proof -
  have a: "unat (klen + vlen) = unat klen + unat vlen"
    using assms by (intro unat_add32) simp
  have b: "unat (klen + vlen + 3) = unat klen + unat vlen + 3"
    using assms a by (subst unat_add32) simp_all
  have c: "unat (klen + vlen + 3 + 4) = unat klen + unat vlen + 7"
    using assms b by (subst unat_add32) simp_all
  have d: "unat (klen + vlen + 3 + 4 + 4) = unat klen + unat vlen + 11"
    using assms c by (subst unat_add32) simp_all
  have e: "254 \<le> x \<longleftrightarrow> \<not> x < 254" for x :: uint
    by auto
  show ?thesis
    using b c d
    by (simp add: zipmapRequiredLength_def Let_def ucast_reqlen unat_LEN_BYTES ZIPMAP_BIGLEN_def e)
qed

lemma zipmapEncodeLength_frame:
  assumes "p + unat (ZIPMAP_LEN_BYTES l) \<le> length zm"
  shows "\<exists>zm1. zipmapEncodeLength zm p l = Some (zm1, ZIPMAP_LEN_BYTES l) \<and>
           length zm1 = length zm \<and>
           (\<forall>i. i < p \<or> p + unat (ZIPMAP_LEN_BYTES l) \<le> i \<longrightarrow> zm1 ! i = zm ! i)"
proof (cases "l < 254")
  case True
  with assms show ?thesis
    by (simp add: zipmapEncodeLength_def ZIPMAP_LEN_BYTES_def ZIPMAP_BIGLEN_def)
next
  case False
  with assms show ?thesis
    by (simp add: zipmapEncodeLength_def ZIPMAP_LEN_BYTES_def ZIPMAP_BIGLEN_def)
qed

lemma zm_memcpy_frame:
  assumes "p + n \<le> length zm" and "n \<le> length src"
  shows "\<exists>zm1. zm_memcpy zm p src n = Some zm1 \<and> length zm1 = length zm \<and>
           (\<forall>i<length zm. i < p \<or> p + n \<le> i \<longrightarrow> zm1 ! i = zm ! i)"
  using assms by (auto simp: zm_memcpy_def nth_append min_def)

lemma zm_memmove_frame:
  assumes "dst + n \<le> length zm" and "src + n \<le> length zm"
  shows "\<exists>zm1. zm_memmove zm dst src n = Some zm1 \<and> length zm1 = length zm \<and>
           (\<forall>i<n. zm1 ! (dst + i) = zm ! (src + i)) \<and>
           (\<forall>i<length zm. i < dst \<or> dst + n \<le> i \<longrightarrow> zm1 ! i = zm ! i)"
proof -
  define A where "A = take dst zm"
  define B where "B = take n (drop src zm)"
  define C where "C = drop (dst + n) zm"
  have lA: "length A = dst" and lB: "length B = n" and lC: "length C = length zm - (dst + n)"
    using assms by (simp_all add: A_def B_def C_def)
  have m: "zm_memmove zm dst src n = Some (A @ B @ C)"
    using assms by (simp add: zm_memmove_def A_def B_def C_def)
  have len: "length (A @ B @ C) = length zm"
    using assms lA lB lC by simp
  have mv: "\<forall>i<n. (A @ B @ C) ! (dst + i) = zm ! (src + i)"
    using assms by (simp add: nth_append lA lB) (simp add: B_def)
  have fr: "\<forall>i<length zm. i < dst \<or> dst + n \<le> i \<longrightarrow> (A @ B @ C) ! i = zm ! i"
  proof (intro allI impI)
    fix i assume i: "i < length zm" and o: "i < dst \<or> dst + n \<le> i"
    from o show "(A @ B @ C) ! i = zm ! i"
    proof
      assume "i < dst"
      thus ?thesis by (simp add: nth_append lA) (simp add: A_def)
    next
      assume "dst + n \<le> i"
      hence a: "\<not> i < dst" and b: "\<not> i - dst < n" by simp_all
      have "(A @ B @ C) ! i = (B @ C) ! (i - dst)"
        using a by (simp add: nth_append lA)
      also have "\<dots> = C ! (i - dst - n)"
        using b by (simp add: nth_append lB)
      also have "\<dots> = zm ! i"
        using \<open>dst + n \<le> i\<close> i by (simp add: C_def)
      finally show ?thesis .
    qed
  qed
  from m len mv fr show ?thesis by blast
qed

lemma zipmapResize_frame:
  assumes "n \<noteq> 0"
  shows "\<exists>zm1. zipmapResize junk zm n = Some zm1 \<and> length zm1 = unat n \<and>
           zm1 ! (unat n - 1) = ZIPMAP_END \<and>
           (\<forall>i. i < length zm \<and> i < unat n - 1 \<longrightarrow> zm1 ! i = zm ! i)"
proof -
  from assms have "0 < unat n" by (simp add: unat_gt_0)
  thus ?thesis
    by (auto simp: zipmapResize_def zm_write_def Let_def nth_append min_def assms)
qed

text \<open>Writing the entry: the free byte holds \<open>vempty\<close> afterwards, and only the bytes of
  the entry change.\<close>

lemma zipmapSet_write_free:
  assumes room: "p + unat (ZIPMAP_LEN_BYTES klen) + unat klen + unat (ZIPMAP_LEN_BYTES vlen)
                   + 1 + unat vlen \<le> length zm"
      and kl: "unat klen \<le> length key" and vl: "unat vlen \<le> length val"
  shows "\<exists>zm'. zipmapSet_write zm p key klen val vlen vempty = Some zm' \<and>
           length zm' = length zm \<and>
           zm' ! zipmap_free_offset p klen vlen = ucast vempty \<and>
           (\<forall>i<length zm. i < p \<or>
                p + unat (ZIPMAP_LEN_BYTES klen) + unat klen + unat (ZIPMAP_LEN_BYTES vlen)
                  + 1 + unat vlen \<le> i \<longrightarrow> zm' ! i = zm ! i)"
proof -
  define a where "a = unat (ZIPMAP_LEN_BYTES klen)"
  define b where "b = unat (ZIPMAP_LEN_BYTES vlen)"
  note room' = room[folded a_def b_def]
  from room' have "p + a \<le> length zm" by simp
  from zipmapEncodeLength_frame[OF this[unfolded a_def]] obtain zm1 where
    1: "zipmapEncodeLength zm p klen = Some (zm1, ZIPMAP_LEN_BYTES klen)" and
    l1: "length zm1 = length zm" and
    f1: "\<forall>i. i < p \<or> p + a \<le> i \<longrightarrow> zm1 ! i = zm ! i"
    unfolding a_def by blast
  from room' l1 have "p + a + unat klen \<le> length zm1" by simp
  from zm_memcpy_frame[OF this kl] obtain zm2 where
    2: "zm_memcpy zm1 (p + a) key (unat klen) = Some zm2" and
    l2: "length zm2 = length zm1" and
    f2: "\<forall>i<length zm1. i < p + a \<or> p + a + unat klen \<le> i \<longrightarrow> zm2 ! i = zm1 ! i"
    by blast
  from room' l1 l2 have "p + a + unat klen + b \<le> length zm2" by simp
  from zipmapEncodeLength_frame[OF this[unfolded b_def]] obtain zm3 where
    3: "zipmapEncodeLength zm2 (p + a + unat klen) vlen = Some (zm3, ZIPMAP_LEN_BYTES vlen)" and
    l3: "length zm3 = length zm2" and
    f3: "\<forall>i. i < p + a + unat klen \<or> p + a + unat klen + b \<le> i \<longrightarrow> zm3 ! i = zm2 ! i"
    unfolding b_def by blast
  define fo where "fo = p + a + unat klen + b"
  from room' l1 l2 l3 have fo: "fo < length zm3" by (simp add: fo_def)
  define zm4 where "zm4 = zm3[fo := ucast vempty]"
  have 4: "zm_write zm3 fo (ucast vempty) = Some zm4"
    using fo by (simp add: zm_write_def zm4_def)
  have l4: "length zm4 = length zm3" by (simp add: zm4_def)
  from room' l1 l2 l3 l4 have "fo + 1 + unat vlen \<le> length zm4" by (simp add: fo_def)
  from zm_memcpy_frame[OF this vl] obtain zm5 where
    5: "zm_memcpy zm4 (fo + 1) val (unat vlen) = Some zm5" and
    l5: "length zm5 = length zm4" and
    f5: "\<forall>i<length zm4. i < fo + 1 \<or> fo + 1 + unat vlen \<le> i \<longrightarrow> zm5 ! i = zm4 ! i"
    by blast
  have w: "zipmapSet_write zm p key klen val vlen vempty = Some zm5"
    using 1 2 3 4 5
    by (simp add: zipmapSet_write_def Let_def a_def[symmetric] b_def[symmetric]
          fo_def[symmetric])
  have len: "length zm5 = length zm" using l1 l2 l3 l4 l5 by simp
  have "zm5 ! fo = zm4 ! fo" using f5 fo l4 by simp
  hence free: "zm5 ! zipmap_free_offset p klen vlen = ucast vempty"
    using fo by (simp add: zm4_def zipmap_free_offset_def fo_def a_def b_def)
  have frame: "\<forall>i<length zm. i < p \<or> p + a + unat klen + b + 1 + unat vlen \<le> i
                  \<longrightarrow> zm5 ! i = zm ! i"
  proof (intro allI impI)
    fix i assume i: "i < length zm" and o: "i < p \<or> p + a + unat klen + b + 1 + unat vlen \<le> i"
    from i o l1 l2 l3 l4 f5 have "zm5 ! i = zm4 ! i" by (auto simp: fo_def)
    also from o have "zm4 ! i = zm3 ! i" by (auto simp: zm4_def fo_def)
    also from o f3 have "zm3 ! i = zm2 ! i" by auto
    also from i o l1 f2 have "zm2 ! i = zm1 ! i" by auto
    also from o f1 have "zm1 ! i = zm ! i" by auto
    finally show "zm5 ! i = zm ! i" .
  qed
  from w len free frame show ?thesis
    unfolding a_def b_def by blast
qed

lemma unat_sub32: "b \<le> (a :: uint) \<Longrightarrow> unat (a - b) = unat a - unat b"
  by (rule unat_sub)

text \<open>The key is not in the zipmap: the entry is appended with no slack.\<close>

lemma zipmapSet_miss:
  assumes lk: "zipmapLookupRaw zm (Some key) klen True = Some (None, Some (of_nat (length zm)))"
      and L2: "2 \<le> length zm"
      and kl: "length key = unat klen" and vl: "length val = unat vlen"
      and small: "length zm + unat klen + unat vlen + 11 < 2 ^ 32"
  shows "\<exists>zm'. zipmapSet junk zm key klen val vlen = Some (zm', 0) \<and>
           zm' ! zipmap_free_offset (length zm - 1) klen vlen = 0"
proof -
  define R where "R = (ucast (zipmapRequiredLength klen vlen) :: uint)"
  define tl where "tl = (of_nat (length zm) :: uint)"
  have uR: "unat R = unat (ZIPMAP_LEN_BYTES klen) + unat klen + unat (ZIPMAP_LEN_BYTES vlen)
                       + 1 + unat vlen"
    unfolding R_def using small by (intro unat_reqlen) simp
  have R11: "unat R \<le> unat klen + unat vlen + 11"
    unfolding uR by (simp add: unat_LEN_BYTES)
  have utl: "unat tl = length zm"
    unfolding tl_def using small by (intro unat_of_nat32) simp
  have usum: "unat (tl + R) = length zm + unat R"
    using utl R11 small by (subst unat_add32) simp_all
  have tl0: "tl \<noteq> 0" using utl L2 by auto
  have s0: "tl + R \<noteq> 0" using usum L2 by auto
  from zipmapResize_frame[OF s0, of junk zm] obtain zm1 where
    rs: "zipmapResize junk zm (tl + R) = Some zm1" and l1: "length zm1 = length zm + unat R"
    unfolding usum by blast
  define zm2 where "zm2 = (if ucast (zm1 ! 0) < ZIPMAP_BIGLEN then zm1[0 := zm1 ! 0 + 1] else zm1)"
  have l2: "length zm2 = length zm + unat R" by (simp add: zm2_def l1)
  have nz: "zm1 \<noteq> []" using l1 L2 by auto
  have room: "zipmapSet_room junk zm key klen R = Some (zm2, length zm - 1, tl + R, R, 0)"
    using lk rs tl0 nz utl
    by (simp add: zipmapSet_room_def tl_def[symmetric] zm_read_def zm_write_def zm2_def Let_def)
  have comp: "zipmapSet_compact junk zm2 (length zm - 1) (tl + R) R R
                = Some (zm2, length zm - 1, 0)"
    by (simp add: zipmapSet_compact_def ZIPMAP_VALUE_MAX_FREE_def)
  have "length zm - 1 + unat (ZIPMAP_LEN_BYTES klen) + unat klen + unat (ZIPMAP_LEN_BYTES vlen)
          + 1 + unat vlen \<le> length zm2"
    using l2 uR by simp
  from zipmapSet_write_free[OF this, of key val 0] kl vl obtain zm' where
    w: "zipmapSet_write zm2 (length zm - 1) key klen val vlen 0 = Some zm'" and
    f: "zm' ! zipmap_free_offset (length zm - 1) klen vlen = 0"
    by auto
  have "zipmapSet junk zm key klen val vlen = Some (zm', 0)"
    using room comp w by (simp add: zipmapSet_def R_def[symmetric])
  with f show ?thesis by blast
qed

text \<open>The key has an entry that is too small: the entry grows to the required size.\<close>

lemma zipmapSet_grow:
  assumes lk: "zipmapLookupRaw zm (Some key) klen True = Some (Some q, Some (of_nat (length zm)))"
      and en: "zipmapRawEntryLength zm q = Some e"
      and inb: "q + unat e + 1 \<le> length zm"
      and lt: "e < ucast (zipmapRequiredLength klen vlen)"
      and kl: "length key = unat klen" and vl: "length val = unat vlen"
      and small: "length zm + unat klen + unat vlen + 11 < 2 ^ 32"
  shows "\<exists>zm'. zipmapSet junk zm key klen val vlen = Some (zm', 1) \<and>
           zm' ! zipmap_free_offset q klen vlen = 0"
proof -
  define R where "R = (ucast (zipmapRequiredLength klen vlen) :: uint)"
  define tl where "tl = (of_nat (length zm) :: uint)"
  have uR: "unat R = unat (ZIPMAP_LEN_BYTES klen) + unat klen + unat (ZIPMAP_LEN_BYTES vlen)
                       + 1 + unat vlen"
    unfolding R_def using small by (intro unat_reqlen) simp
  have R11: "unat R \<le> unat klen + unat vlen + 11"
    unfolding uR by (simp add: unat_LEN_BYTES)
  have utl: "unat tl = length zm"
    unfolding tl_def using small by (intro unat_of_nat32) simp
  have eR: "unat e < unat R" using lt by (simp add: R_def word_less_nat_alt)
  have etl: "e \<le> tl" using inb utl by (simp add: word_le_nat_alt)
  have ud: "unat (tl - e) = length zm - unat e"
    using etl utl by (simp add: unat_sub32)
  have un: "unat (tl - e + R) = length zm - unat e + unat R"
    using ud R11 small by (subst unat_add32) simp_all
  have n0: "tl - e + R \<noteq> 0"
    using un eR by auto
  from zipmapResize_frame[OF n0, of junk zm] obtain zm1 where
    rs: "zipmapResize junk zm (tl - e + R) = Some zm1" and
    l1: "length zm1 = length zm - unat e + unat R"
    unfolding un by blast
  have uq: "unat (of_nat q :: uint) = q"
    using inb small by (intro unat_of_nat32) simp
  have uqe: "unat (of_nat q + e :: uint) = q + unat e"
    using uq inb small by (subst unat_add32) simp_all
  have uqe1: "unat (of_nat q + e + 1 :: uint) = q + unat e + 1"
    using uqe inb small by (subst unat_add32) simp_all
  have "of_nat q + e + 1 \<le> tl"
    using uqe1 utl inb by (simp add: word_le_nat_alt)
  hence um: "unat (tl - (of_nat q + e + 1)) = length zm - (q + unat e + 1)"
    using uqe1 utl by (simp add: unat_sub32)
  have b1: "q + unat R + (length zm - (q + unat e + 1)) \<le> length zm1"
    using l1 inb by simp
  have b2: "q + unat e + (length zm - (q + unat e + 1)) \<le> length zm1"
    using l1 inb eR by simp
  from zm_memmove_frame[OF b1 b2] obtain zm2 where
    mv: "zm_memmove zm1 (q + unat R) (q + unat e) (length zm - (q + unat e + 1)) = Some zm2" and
    l2: "length zm2 = length zm1"
    by blast
  have room: "zipmapSet_room junk zm key klen R = Some (zm2, q, tl - e + R, R, 1)"
    using lk en lt rs mv
    by (simp add: zipmapSet_room_def tl_def[symmetric] R_def[symmetric] Let_def uq um)
  have comp: "zipmapSet_compact junk zm2 q (tl - e + R) R R = Some (zm2, q, 0)"
    by (simp add: zipmapSet_compact_def ZIPMAP_VALUE_MAX_FREE_def)
  have "q + unat (ZIPMAP_LEN_BYTES klen) + unat klen + unat (ZIPMAP_LEN_BYTES vlen)
          + 1 + unat vlen \<le> length zm2"
    using l1 l2 uR inb by simp
  from zipmapSet_write_free[OF this, of key val 0] kl vl obtain zm' where
    w: "zipmapSet_write zm2 q key klen val vlen 0 = Some zm'" and
    f: "zm' ! zipmap_free_offset q klen vlen = 0"
    by auto
  have "zipmapSet junk zm key klen val vlen = Some (zm', 1)"
    using room comp w by (simp add: zipmapSet_def R_def[symmetric])
  with f show ?thesis by blast
qed

text \<open>The key has an entry with less than \<open>ZIPMAP_VALUE_MAX_FREE\<close> bytes to spare: the
  entry is rewritten in place and the spare bytes are recorded in its free byte.\<close>

lemma zipmapSet_keep:
  assumes lk: "zipmapLookupRaw zm (Some key) klen True = Some (Some q, Some (of_nat (length zm)))"
      and en: "zipmapRawEntryLength zm q = Some e"
      and inb: "q + unat e + 1 \<le> length zm"
      and ge: "\<not> e < ucast (zipmapRequiredLength klen vlen)"
      and lt: "\<not> ZIPMAP_VALUE_MAX_FREE \<le> e - ucast (zipmapRequiredLength klen vlen)"
      and kl: "length key = unat klen" and vl: "length val = unat vlen"
      and small: "length zm + unat klen + unat vlen + 11 < 2 ^ 32"
  shows "\<exists>zm'. zipmapSet junk zm key klen val vlen = Some (zm', 1) \<and>
           zm' ! zipmap_free_offset q klen vlen
             = ucast (e - ucast (zipmapRequiredLength klen vlen))"
proof -
  define R where "R = (ucast (zipmapRequiredLength klen vlen) :: uint)"
  define tl where "tl = (of_nat (length zm) :: uint)"
  have uR: "unat R = unat (ZIPMAP_LEN_BYTES klen) + unat klen + unat (ZIPMAP_LEN_BYTES vlen)
                       + 1 + unat vlen"
    unfolding R_def using small by (intro unat_reqlen) simp
  have eR: "unat R \<le> unat e" using ge by (simp add: R_def word_less_nat_alt)
  have room: "zipmapSet_room junk zm key klen R = Some (zm, q, tl, e, 1)"
    using lk en ge
    by (simp add: zipmapSet_room_def tl_def[symmetric] R_def[symmetric])
  have comp: "zipmapSet_compact junk zm q tl e R = Some (zm, q, e - R)"
    using lt by (simp add: zipmapSet_compact_def R_def[symmetric] Let_def)
  have "q + unat (ZIPMAP_LEN_BYTES klen) + unat klen + unat (ZIPMAP_LEN_BYTES vlen)
          + 1 + unat vlen \<le> length zm"
    using uR eR inb by simp
  from zipmapSet_write_free[OF this, of key val "e - R"] kl vl obtain zm' where
    w: "zipmapSet_write zm q key klen val vlen (e - R) = Some zm'" and
    f: "zm' ! zipmap_free_offset q klen vlen = ucast (e - R)"
    by auto
  have "zipmapSet junk zm key klen val vlen = Some (zm', 1)"
    using room comp w by (simp add: zipmapSet_def R_def[symmetric])
  with f show ?thesis unfolding R_def by blast
qed

text \<open>The key has an entry with \<open>ZIPMAP_VALUE_MAX_FREE\<close> or more bytes to spare: the
  tail moves forward over the spare bytes, the block shrinks by them and the free byte
  is 0.\<close>

lemma zipmapSet_compact_tail:
  assumes lk: "zipmapLookupRaw zm (Some key) klen True = Some (Some q, Some (of_nat (length zm)))"
      and en: "zipmapRawEntryLength zm q = Some e"
      and inb: "q + unat e + 1 \<le> length zm"
      and last: "zm ! (length zm - 1) = ZIPMAP_END"
      and ge: "\<not> e < ucast (zipmapRequiredLength klen vlen)"
      and big: "ZIPMAP_VALUE_MAX_FREE \<le> e - ucast (zipmapRequiredLength klen vlen)"
      and kl: "length key = unat klen" and vl: "length val = unat vlen"
      and small: "length zm + unat klen + unat vlen + 11 < 2 ^ 32"
  shows "\<exists>zm'. zipmapSet junk zm key klen val vlen = Some (zm', 1) \<and>
           zm' ! zipmap_free_offset q klen vlen = 0 \<and>
           length zm' = length zm - unat (e - ucast (zipmapRequiredLength klen vlen)) \<and>
           drop (q + unat (ucast (zipmapRequiredLength klen vlen) :: uint)) zm'
             = drop (q + unat (ucast (zipmapRequiredLength klen vlen) :: uint)
                       + unat (e - ucast (zipmapRequiredLength klen vlen))) zm"
proof -
  define R where "R = (ucast (zipmapRequiredLength klen vlen) :: uint)"
  define tl where "tl = (of_nat (length zm) :: uint)"
  define n where "n = length zm - (q + unat e + 1)"
  have uR: "unat R = unat (ZIPMAP_LEN_BYTES klen) + unat klen + unat (ZIPMAP_LEN_BYTES vlen)
                       + 1 + unat vlen"
    unfolding R_def using small by (intro unat_reqlen) simp
  have utl: "unat tl = length zm"
    unfolding tl_def using small by (intro unat_of_nat32) simp
  have Re: "R \<le> e" using ge by (simp add: R_def)
  hence eR: "unat R \<le> unat e" by (simp add: word_le_nat_alt)
  have uem: "unat (e - R) = unat e - unat R" using Re by (rule unat_sub32)
  have uq: "unat (of_nat q :: uint) = q"
    using inb small by (intro unat_of_nat32) simp
  have uqe: "unat (of_nat q + e :: uint) = q + unat e"
    using uq inb small by (subst unat_add32) simp_all
  have uqe1: "unat (of_nat q + e + 1 :: uint) = q + unat e + 1"
    using uqe inb small by (subst unat_add32) simp_all
  have "of_nat q + e + 1 \<le> tl"
    using uqe1 utl inb by (simp add: word_le_nat_alt)
  hence um: "unat (tl - (of_nat q + e + 1)) = n"
    using uqe1 utl by (simp add: unat_sub32 n_def)
  have "e - R \<le> tl" using uem utl inb by (simp add: word_le_nat_alt)
  hence ush: "unat (tl - (e - R)) = length zm - (unat e - unat R)"
    using uem utl by (simp add: unat_sub32)
  have room: "zipmapSet_room junk zm key klen R = Some (zm, q, tl, e, 1)"
    using lk en ge
    by (simp add: zipmapSet_room_def tl_def[symmetric] R_def[symmetric])
  have b1: "q + unat R + n \<le> length zm" using inb eR by (simp add: n_def)
  have b2: "q + unat e + n \<le> length zm" using inb by (simp add: n_def)
  from zm_memmove_frame[OF b1 b2] obtain zmA where
    mv: "zm_memmove zm (q + unat R) (q + unat e) n = Some zmA" and
    lA: "length zmA = length zm" and
    moved: "\<forall>i<n. zmA ! (q + unat R + i) = zm ! (q + unat e + i)"
    by blast
  have n0: "tl - (e - R) \<noteq> 0" using ush inb by auto
  from zipmapResize_frame[OF n0, of junk zmA] obtain zmB where
    rs: "zipmapResize junk zmA (tl - (e - R)) = Some zmB" and
    lB: "length zmB = length zm - (unat e - unat R)" and
    endB: "zmB ! (length zm - (unat e - unat R) - 1) = ZIPMAP_END" and
    keptB: "\<forall>i. i < length zmA \<and> i < length zm - (unat e - unat R) - 1 \<longrightarrow> zmB ! i = zmA ! i"
    unfolding ush by blast
  have comp: "zipmapSet_compact junk zm q tl e R = Some (zmB, q, 0)"
    using big mv rs by (simp add: zipmapSet_compact_def R_def[symmetric] Let_def um uq)
  have wb: "q + unat (ZIPMAP_LEN_BYTES klen) + unat klen + unat (ZIPMAP_LEN_BYTES vlen)
          + 1 + unat vlen \<le> length zmB"
    using uR eR inb lB by simp
  from zipmapSet_write_free[OF wb, of key val 0] kl vl obtain zm' where
    w: "zipmapSet_write zmB q key klen val vlen 0 = Some zm'" and
    l': "length zm' = length zmB" and
    f: "zm' ! zipmap_free_offset q klen vlen = 0" and
    frame0: "\<forall>i<length zmB. i < q \<or>
                q + unat (ZIPMAP_LEN_BYTES klen) + unat klen + unat (ZIPMAP_LEN_BYTES vlen)
                  + 1 + unat vlen \<le> i \<longrightarrow> zm' ! i = zmB ! i"
    by auto
  have frame: "\<forall>i<length zmB. q + unat R \<le> i \<longrightarrow> zm' ! i = zmB ! i"
  proof (intro allI impI)
    fix i assume "i < length zmB" and "q + unat R \<le> i"
    moreover from this have "q + unat (ZIPMAP_LEN_BYTES klen) + unat klen
        + unat (ZIPMAP_LEN_BYTES vlen) + 1 + unat vlen \<le> i"
      using uR by simp
    ultimately show "zm' ! i = zmB ! i" using frame0 by blast
  qed
  have s: "zipmapSet junk zm key klen val vlen = Some (zm', 1)"
    using room comp w by (simp add: zipmapSet_def R_def[symmetric])
  have len: "length zm' = length zm - unat (e - R)"
    using l' lB uem by simp
  have tail: "drop (q + unat R) zm' = drop (q + unat R + unat (e - R)) zm"
  proof (rule nth_equalityI)
    show "length (drop (q + unat R) zm') = length (drop (q + unat R + unat (e - R)) zm)"
      using len uem eR inb by simp
  next
    fix i assume "i < length (drop (q + unat R) zm')"
    hence i: "i \<le> n" using len uem eR inb by (simp add: n_def)
    have ib: "q + unat R + i < length zmB" using i lB eR inb by (simp add: n_def)
    have "drop (q + unat R) zm' ! i = zm' ! (q + unat R + i)"
      using ib l' by simp
    also have "\<dots> = zmB ! (q + unat R + i)"
      using frame ib by simp
    also have "\<dots> = zm ! (q + unat e + i)"
    proof (cases "i < n")
      case True
      hence "q + unat R + i < length zm - (unat e - unat R) - 1"
        using eR inb by (simp add: n_def)
      moreover have "q + unat R + i < length zmA" using ib lB lA by simp
      ultimately have "zmB ! (q + unat R + i) = zmA ! (q + unat R + i)"
        using keptB by simp
      also have "\<dots> = zm ! (q + unat e + i)" using moved True by simp
      finally show ?thesis .
    next
      case False
      with i have "i = n" by simp
      hence a: "q + unat R + i = length zm - (unat e - unat R) - 1"
        and b: "q + unat e + i = length zm - 1"
        using eR inb by (simp_all add: n_def)
      show ?thesis unfolding a b using endB last by simp
    qed
    also have "\<dots> = drop (q + unat R + unat (e - R)) zm ! i"
      using i uem eR inb by (simp add: n_def)
    finally show "drop (q + unat R) zm' ! i = drop (q + unat R + unat (e - R)) zm ! i" .
  qed
  from s f len tail show ?thesis unfolding R_def by blast
qed

lemma ucast_slack_le:
  assumes "\<not> ZIPMAP_VALUE_MAX_FREE \<le> (x :: uint)"
  shows "(ucast x :: byte) \<le> 4"
proof -
  from assms have "unat x < 4"
    by (simp add: ZIPMAP_VALUE_MAX_FREE_def word_le_nat_alt)
  moreover have "unat (ucast x :: byte) = unat x mod 256"
    by (simp add: unsigned_ucast_eq take_bit_eq_mod)
  ultimately show ?thesis by (simp add: word_le_nat_alt)
qed

text \<open>
  Claim C9.  On a well-formed zipmap, with a key and a value of the lengths passed and
  sizes that fit \<open>unsigned int\<close>, \<open>zipmapSet\<close> returns, and in the block it returns the
  free byte of the entry it touched is 0 when the residual slack of that entry is
  \<open>ZIPMAP_VALUE_MAX_FREE\<close> or more, and the residual slack otherwise; so it is at most 4.
  In the first case the block is shorter by the slack and the bytes that followed the old
  entry follow the new one.
\<close>

theorem zipmapSet_free_byte:
  assumes wf: "zipmap_wf zm"
      and kl: "length key = unat klen" and vl: "length val = unat vlen"
      and small: "length zm + unat klen + unat vlen + 11 < 2 ^ 32"
  shows "\<exists>zm' update p slack.
           zipmapSet junk zm key klen val vlen = Some (zm', update) \<and>
           zipmap_touched_entry zm key klen = Some p \<and>
           zipmap_residual_slack zm key klen vlen = Some slack \<and>
           zm' ! zipmap_free_offset p klen vlen
             = (if ZIPMAP_VALUE_MAX_FREE \<le> slack then 0 else ucast slack) \<and>
           zm' ! zipmap_free_offset p klen vlen \<le> 4 \<and>
           (ZIPMAP_VALUE_MAX_FREE \<le> slack \<longrightarrow>
              length zm' = length zm - unat slack \<and>
              drop (p + unat (ucast (zipmapRequiredLength klen vlen) :: uint)) zm'
                = drop (p + unat (ucast (zipmapRequiredLength klen vlen) :: uint) + unat slack) zm)"
proof -
  define R where "R = (ucast (zipmapRequiredLength klen vlen) :: uint)"
  note s = zipmap_wf_scan[OF wf]
  have ks: "unat klen + 5 < 2 ^ 32" using small by simp
  have utl: "unat (of_nat (length zm) :: uint) = length zm"
    using s(3) by (rule unat_of_nat32)
  from zipmapLookupRaw_loop_end[OF s(1)] have last: "zm ! (length zm - 1) = ZIPMAP_END"
    by simp
  from zipmapLookupRaw_wf[OF wf kl ks] obtain k where
    lk: "zipmapLookupRaw zm (Some key) klen True = Some (k, Some (of_nat (length zm)))" and
    c: "k = None \<or>
         (\<exists>q e. k = Some q \<and> zipmapRawEntryLength zm q = Some e \<and> 1 \<le> q \<and>
                q + unat e + 1 \<le> length zm)"
    by blast
  from c show ?thesis
  proof
    assume k: "k = None"
    from zipmapSet_miss[OF lk[unfolded k] s(2) kl vl small, of junk] obtain zm' where
      "zipmapSet junk zm key klen val vlen = Some (zm', 0)"
      "zm' ! zipmap_free_offset (length zm - 1) klen vlen = 0"
      by blast
    moreover have "zipmap_touched_entry zm key klen = Some (length zm - 1)"
      using lk k utl by (simp add: zipmap_touched_entry_def)
    moreover have "zipmap_residual_slack zm key klen vlen = Some 0"
      using lk k by (simp add: zipmap_residual_slack_def)
    ultimately show ?thesis
      by (intro exI[of _ zm'] exI[of _ 0] exI[of _ "length zm - 1"])
         (simp add: ZIPMAP_VALUE_MAX_FREE_def)
  next
    assume "\<exists>q e. k = Some q \<and> zipmapRawEntryLength zm q = Some e \<and> 1 \<le> q \<and>
                q + unat e + 1 \<le> length zm"
    then obtain q e where k: "k = Some q" and en: "zipmapRawEntryLength zm q = Some e"
      and inb: "q + unat e + 1 \<le> length zm"
      by blast
    have te: "zipmap_touched_entry zm key klen = Some q"
      using lk k by (simp add: zipmap_touched_entry_def)
    have sl: "zipmap_residual_slack zm key klen vlen = Some (if e < R then 0 else e - R)"
      using lk k en by (simp add: zipmap_residual_slack_def R_def Let_def)
    show ?thesis
    proof (cases "e < R")
      case True
      from zipmapSet_grow[OF lk[unfolded k] en inb True[unfolded R_def] kl vl small, of junk]
      obtain zm' where
        "zipmapSet junk zm key klen val vlen = Some (zm', 1)"
        "zm' ! zipmap_free_offset q klen vlen = 0"
        by blast
      with te sl True show ?thesis
        by (intro exI[of _ zm'] exI[of _ 1] exI[of _ q] exI[of _ 0])
           (simp add: ZIPMAP_VALUE_MAX_FREE_def)
    next
      case False
      note ge = False
      show ?thesis
      proof (cases "ZIPMAP_VALUE_MAX_FREE \<le> e - R")
        case True
        from zipmapSet_compact_tail[OF lk[unfolded k] en inb last ge[unfolded R_def]
               True[unfolded R_def] kl vl small, of junk]
        obtain zm' where
          "zipmapSet junk zm key klen val vlen = Some (zm', 1)"
          "zm' ! zipmap_free_offset q klen vlen = 0"
          "length zm' = length zm - unat (e - R)"
          "drop (q + unat R) zm' = drop (q + unat R + unat (e - R)) zm"
          unfolding R_def by blast
        with te sl ge True show ?thesis
          unfolding R_def[symmetric]
          by (intro exI[of _ zm'] exI[of _ 1] exI[of _ q] exI[of _ "e - R"]) simp
      next
        case False
        from zipmapSet_keep[OF lk[unfolded k] en inb ge[unfolded R_def]
               False[unfolded R_def] kl vl small, of junk]
        obtain zm' where
          "zipmapSet junk zm key klen val vlen = Some (zm', 1)"
          "zm' ! zipmap_free_offset q klen vlen = ucast (e - R)"
          unfolding R_def by blast
        with te sl ge False ucast_slack_le[OF False] show ?thesis
          unfolding R_def[symmetric]
          by (intro exI[of _ zm'] exI[of _ 1] exI[of _ q] exI[of _ "e - R"]) simp
      qed
    qed
  qed
qed

text \<open>Two runs: \<open>"foo"\<close> is set to \<open>"b"\<close> where it held \<open>"barbarbar"\<close> (slack 8, the
  block shrinks from 17 to 9 bytes) and where it held \<open>"bar"\<close> (slack 2, kept).\<close>

lemma zipmap_wf_examples:
  "zipmap_wf ([1, 3] @ bytes_of ''foo'' @ [9, 0] @ bytes_of ''barbarbar'' @ [255])"
  "zipmap_wf ([1, 3] @ bytes_of ''foo'' @ [3, 0] @ bytes_of ''bar'' @ [255])"
  by (simp_all add: zipmap_wf_def zipmapBlobLen_def zipmap_defs Let_def)

lemma zipmap_touched_entry_examples:
  "zipmap_touched_entry ([1, 3] @ bytes_of ''foo'' @ [9, 0] @ bytes_of ''barbarbar'' @ [255])
     (bytes_of ''foo'') 3 = Some 1"
  "zipmap_touched_entry ([1, 3] @ bytes_of ''foo'' @ [3, 0] @ bytes_of ''bar'' @ [255])
     (bytes_of ''foo'') 3 = Some 1"
  by (simp_all add: zipmap_touched_entry_def zipmap_defs Let_def)

lemma zipmap_residual_slack_examples:
  "zipmap_residual_slack ([1, 3] @ bytes_of ''foo'' @ [9, 0] @ bytes_of ''barbarbar'' @ [255])
     (bytes_of ''foo'') 3 1 = Some 8"
  "zipmap_residual_slack ([1, 3] @ bytes_of ''foo'' @ [3, 0] @ bytes_of ''bar'' @ [255])
     (bytes_of ''foo'') 3 1 = Some 2"
proof -
  have "\<not> (254 :: uint) \<le> 1" by (simp add: word_le_nat_alt)
  thus
    "zipmap_residual_slack ([1, 3] @ bytes_of ''foo'' @ [9, 0] @ bytes_of ''barbarbar'' @ [255])
       (bytes_of ''foo'') 3 1 = Some 8"
    "zipmap_residual_slack ([1, 3] @ bytes_of ''foo'' @ [3, 0] @ bytes_of ''bar'' @ [255])
       (bytes_of ''foo'') 3 1 = Some 2"
    by (simp_all add: zipmap_residual_slack_def zipmap_defs Let_def)
qed

lemma zipmap_free_offset_example: "zipmap_free_offset 1 3 1 = 6"
  by (simp add: zipmap_free_offset_def ZIPMAP_LEN_BYTES_def ZIPMAP_BIGLEN_def)

lemma zipmap_example_sizes:
  "length (bytes_of ''foo'') = unat (3 :: uint)" "length (bytes_of ''b'') = unat (1 :: uint)"
  "length ([1, 3] @ bytes_of ''foo'' @ [9, 0] @ bytes_of ''barbarbar'' @ [255 :: byte])
     + unat (3 :: uint) + unat (1 :: uint) + 11 < 2 ^ 32"
  "length ([1, 3] @ bytes_of ''foo'' @ [3, 0] @ bytes_of ''bar'' @ [255 :: byte])
     + unat (3 :: uint) + unat (1 :: uint) + 11 < 2 ^ 32"
  "length ([1, 3] @ bytes_of ''foo'' @ [9, 0] @ bytes_of ''barbarbar'' @ [255 :: byte]) = 17"
  by (simp_all add: bytes_of_def)

theorem zipmapSet_free_byte_witness:
  "(\<exists>zm' update.
      zipmapSet 0 ([1, 3] @ bytes_of ''foo'' @ [9, 0] @ bytes_of ''barbarbar'' @ [255])
        (bytes_of ''foo'') 3 (bytes_of ''b'') 1 = Some (zm', update) \<and>
      zm' ! 6 = 0 \<and> zm' ! 6 \<le> 4 \<and> length zm' = 9) \<and>
   (\<exists>zm' update.
      zipmapSet 0 ([1, 3] @ bytes_of ''foo'' @ [3, 0] @ bytes_of ''bar'' @ [255])
        (bytes_of ''foo'') 3 (bytes_of ''b'') 1 = Some (zm', update) \<and>
      zm' ! 6 = 2 \<and> zm' ! 6 \<le> 4)"
proof
  from zipmapSet_free_byte[OF zipmap_wf_examples(1) zipmap_example_sizes(1,2,3), of 0]
  obtain zm' update p slack where
    s: "zipmapSet 0 ([1, 3] @ bytes_of ''foo'' @ [9, 0] @ bytes_of ''barbarbar'' @ [255])
        (bytes_of ''foo'') 3 (bytes_of ''b'') 1 = Some (zm', update)" and
    p: "zipmap_touched_entry
          ([1, 3] @ bytes_of ''foo'' @ [9, 0] @ bytes_of ''barbarbar'' @ [255])
          (bytes_of ''foo'') 3 = Some p" and
    sl: "zipmap_residual_slack
          ([1, 3] @ bytes_of ''foo'' @ [9, 0] @ bytes_of ''barbarbar'' @ [255])
          (bytes_of ''foo'') 3 1 = Some slack" and
    f: "zm' ! zipmap_free_offset p 3 1
          = (if ZIPMAP_VALUE_MAX_FREE \<le> slack then 0 else ucast slack)" and
    b: "zm' ! zipmap_free_offset p 3 1 \<le> 4" and
    c: "ZIPMAP_VALUE_MAX_FREE \<le> slack \<longrightarrow>
          length zm' = length ([1, 3] @ bytes_of ''foo'' @ [9, 0] @ bytes_of ''barbarbar''
                                 @ [255 :: byte]) - unat slack"
    by blast
  from p have p1: "p = 1" unfolding zipmap_touched_entry_examples by simp
  from sl have s8: "slack = 8" unfolding zipmap_residual_slack_examples by simp
  from f b c have "zm' ! 6 = 0 \<and> zm' ! 6 \<le> 4 \<and> length zm' = 9"
    unfolding p1 s8 zipmap_free_offset_example zipmap_example_sizes(5)
    by (simp add: ZIPMAP_VALUE_MAX_FREE_def)
  with s show "\<exists>zm' update.
      zipmapSet 0 ([1, 3] @ bytes_of ''foo'' @ [9, 0] @ bytes_of ''barbarbar'' @ [255])
        (bytes_of ''foo'') 3 (bytes_of ''b'') 1 = Some (zm', update) \<and>
      zm' ! 6 = 0 \<and> zm' ! 6 \<le> 4 \<and> length zm' = 9"
    by blast
next
  from zipmapSet_free_byte[OF zipmap_wf_examples(2) zipmap_example_sizes(1,2,4), of 0]
  obtain zm' update p slack where
    s: "zipmapSet 0 ([1, 3] @ bytes_of ''foo'' @ [3, 0] @ bytes_of ''bar'' @ [255])
        (bytes_of ''foo'') 3 (bytes_of ''b'') 1 = Some (zm', update)" and
    p: "zipmap_touched_entry ([1, 3] @ bytes_of ''foo'' @ [3, 0] @ bytes_of ''bar'' @ [255])
          (bytes_of ''foo'') 3 = Some p" and
    sl: "zipmap_residual_slack ([1, 3] @ bytes_of ''foo'' @ [3, 0] @ bytes_of ''bar'' @ [255])
          (bytes_of ''foo'') 3 1 = Some slack" and
    f: "zm' ! zipmap_free_offset p 3 1
          = (if ZIPMAP_VALUE_MAX_FREE \<le> slack then 0 else ucast slack)" and
    b: "zm' ! zipmap_free_offset p 3 1 \<le> 4"
    by blast
  from p have p1: "p = 1" unfolding zipmap_touched_entry_examples by simp
  from sl have s2: "slack = 2" unfolding zipmap_residual_slack_examples by simp
  from f b have "zm' ! 6 = 2 \<and> zm' ! 6 \<le> 4"
    unfolding p1 s2 zipmap_free_offset_example
    by (simp add: ZIPMAP_VALUE_MAX_FREE_def)
  with s show "\<exists>zm' update.
      zipmapSet 0 ([1, 3] @ bytes_of ''foo'' @ [3, 0] @ bytes_of ''bar'' @ [255])
        (bytes_of ''foo'') 3 (bytes_of ''b'') 1 = Some (zm', update) \<and>
      zm' ! 6 = 2 \<and> zm' ! 6 \<le> 4"
    by blast
qed

end
